theory Spec2Isabelle
  imports Complex_Main "HOL-Library.Log_Nat"
begin

section \<open>Numbers\<close>

text \<open>
  The script computes with JavaScript numbers, which are double-precision binary
  floating-point numbers: the result of an arithmetic operation is the exact result
  rounded to the nearest double, a tie going to the double whose significand is even.
  A double is modelled as the real number it stands for, and \<open>double x\<close> is the double
  nearest to the real \<open>x\<close>, so that \<^verbatim>\<open>a * b\<close> is \<open>double (a * b)\<close> and the literal
  \<^verbatim>\<open>0.299\<close> is \<open>double 0.299\<close>. The colour conversion \<^verbatim>\<open>rgbToHsv\<close> and the pixel
  transforms are modelled in this arithmetic. The exponent of a double is not bounded
  in the model: the numbers of the script stay far from the overflow and underflow
  thresholds. The bounding boxes and the detection heuristics are modelled in integers
  where the script only ever holds integers, and in real arithmetic otherwise.

  \<open>round_half_even\<close> rounds to the nearest integer, a tie going to the even one.
\<close>

definition round_half_even :: "real \<Rightarrow> int" where
  "round_half_even x =
     (let f = \<lfloor>x\<rfloor>; d = x - of_int f
      in if d < 1 / 2 then f else if d > 1 / 2 then f + 1 else if even f then f else f + 1)"

text \<open>
  The binary exponent of a positive number \<open>x\<close>: the integer \<open>e\<close> with
  \<open>2\<^sup>e \<le> x < 2\<^sup>e\<^sup>+\<^sup>1\<close>, read off the number of binary digits of \<open>\<lfloor>x\<rfloor>\<close> or of
  \<open>\<lceil>1 / x\<rceil> - 1\<close>.
\<close>

definition binary_exponent :: "real \<Rightarrow> int" where
  "binary_exponent x = (if x \<ge> 1 then bitlen \<lfloor>x\<rfloor> - 1 else - bitlen (\<lceil>1 / x\<rceil> - 1))"

text \<open>
  Rounding to 53 significant binary digits: the multiple of \<open>2\<^sup>e\<^sup>-\<^sup>5\<^sup>2\<close> nearest to \<open>x\<close>,
  where \<open>e\<close> is the binary exponent of \<open>\<bar>x\<bar>\<close>.
\<close>

definition double :: "real \<Rightarrow> real" where
  "double x =
     (if x = 0 then 0
      else let q = 2 powi (binary_exponent \<bar>x\<bar> - 52)
           in q * of_int (round_half_even (x / q)))"

text \<open>\<^verbatim>\<open>Math.round(x)\<close> rounds to the nearest integer, a tie going up.\<close>

definition js_round :: "real \<Rightarrow> int" where
  "js_round x = \<lfloor>x + 1 / 2\<rfloor>"

text \<open>
  The \<^verbatim>\<open>pixels\<close> array of a graphics object is a \<^verbatim>\<open>Uint8ClampedArray\<close>: a number
  stored in it is clamped to the range from 0 to 255 and rounded to the nearest integer,
  a tie going to the even one.
\<close>

definition to_byte :: "real \<Rightarrow> real" where
  "to_byte x = (if x \<le> 0 then 0 else if x \<ge> 255 then 255 else of_int (round_half_even x))"

section \<open>Bounding boxes and the tracking history (class FaceProcessor)\<close>

text \<open>A face position \<^verbatim>\<open>{x, y, width, height}\<close>.\<close>

record box =
  box_x :: int
  box_y :: int
  box_width :: int
  box_height :: int

text \<open>
  The fields the constructor of \<^verbatim>\<open>FaceProcessor\<close> initialises and the methods
  later assign. \<^verbatim>\<open>maxHistoryLength\<close>, \<^verbatim>\<open>minFaceSize\<close> and
  \<^verbatim>\<open>maxFaceSize\<close> are set once in the constructor and never assigned again.
\<close>

record face_processor =
  lastKnownFacePosition :: "box option"
  faceTrackingHistory :: "box list"

definition maxHistoryLength :: nat where
  "maxHistoryLength = 5"

definition minFaceSize :: int where
  "minFaceSize = 30"

definition maxFaceSize :: int where
  "maxFaceSize = 100"

definition new_FaceProcessor :: face_processor where
  "new_FaceProcessor = \<lparr>lastKnownFacePosition = None, faceTrackingHistory = []\<rparr>"

definition isValidFaceSize :: "box \<Rightarrow> bool" where
  "isValidFaceSize face \<longleftrightarrow>
     box_width face \<ge> minFaceSize \<and> box_height face \<ge> minFaceSize \<and>
     box_width face \<le> maxFaceSize \<and> box_height face \<le> maxFaceSize"

text \<open>
  \<^verbatim>\<open>updateFaceHistory(facePosition)\<close>; the argument may be \<^verbatim>\<open>null\<close>
  (\<open>None\<close>). \<^verbatim>\<open>push\<close> appends at the end, \<^verbatim>\<open>shift\<close> drops the first
  element.
\<close>

definition updateFaceHistory :: "face_processor \<Rightarrow> box option \<Rightarrow> face_processor" where
  "updateFaceHistory fp facePosition =
     (case facePosition of
        None \<Rightarrow> fp
      | Some face \<Rightarrow>
          if isValidFaceSize face then
            let pushed = faceTrackingHistory fp @ [face];
                shifted = (if length pushed > maxHistoryLength then tl pushed else pushed)
            in fp\<lparr>faceTrackingHistory := shifted, lastKnownFacePosition := Some face\<rparr>
          else fp)"

text \<open>The boxes a sequence of calls accepts, in call order.\<close>

fun accepted :: "box option list \<Rightarrow> box list" where
  "accepted [] = []"
| "accepted (None # calls) = accepted calls"
| "accepted (Some face # calls) =
     (if isValidFaceSize face then face # accepted calls else accepted calls)"

text \<open>The last \<open>n\<close> elements of a list, in order.\<close>

definition keep_last :: "nat \<Rightarrow> 'a list \<Rightarrow> 'a list" where
  "keep_last n xs = drop (length xs - n) xs"

section \<open>Normalising the detector's bounding box (processFaceDetection)\<close>

text \<open>
  The first result of \<^verbatim>\<open>faceMesh.detect\<close>. The script looks for a field
  \<^verbatim>\<open>box\<close> (with \<^verbatim>\<open>xMin, yMin, width, height\<close>), then for a field
  \<^verbatim>\<open>boundingBox\<close> (with \<^verbatim>\<open>topLeft.x, topLeft.y, width, height\<close>); a result
  with neither leaves \<^verbatim>\<open>bbox\<close> undefined.
\<close>

datatype detection =
    BoxForm real real real real
  | TopLeftForm real real real real
  | NoBox

text \<open>The frame size held by the global \<^verbatim>\<open>imageProcessor\<close>.\<close>

definition imageProcessor_width :: int where
  "imageProcessor_width = 160"

definition imageProcessor_height :: int where
  "imageProcessor_height = 120"

text \<open>The object literal assigned to \<^verbatim>\<open>bbox\<close>; both shapes are treated alike.\<close>

fun detected_bbox :: "detection \<Rightarrow> box option" where
  "detected_bbox (BoxForm xMin yMin w h) =
     Some \<lparr>box_x = max 0 (js_round xMin), box_y = max 0 (js_round yMin),
           box_width = min (js_round w) imageProcessor_width,
           box_height = min (js_round h) imageProcessor_height\<rparr>"
| "detected_bbox (TopLeftForm x y w h) =
     Some \<lparr>box_x = max 0 (js_round x), box_y = max 0 (js_round y),
           box_width = min (js_round w) imageProcessor_width,
           box_height = min (js_round h) imageProcessor_height\<rparr>"
| "detected_bbox NoBox = None"

text \<open>The two assignments under the comment "Final bounds validation".\<close>

definition final_bounds :: "box \<Rightarrow> box" where
  "final_bounds bbox =
     (let b1 = (if box_x bbox + box_width bbox > imageProcessor_width
                then bbox\<lparr>box_width := imageProcessor_width - box_x bbox\<rparr> else bbox)
      in if box_y b1 + box_height b1 > imageProcessor_height
         then b1\<lparr>box_height := imageProcessor_height - box_y b1\<rparr> else b1)"

text \<open>
  The box that the script hands to \<^verbatim>\<open>updateFaceHistory\<close> and
  \<^verbatim>\<open>applyFaceFilter\<close> for a detector result, or \<open>None\<close> where it goes on to
  \<^verbatim>\<open>detectFaceManually\<close>. The test \<^verbatim>\<open>bbox.width > 0 && bbox.height > 0\<close> comes
  before the final bounds validation.
\<close>

definition accepted_detection :: "detection \<Rightarrow> box option" where
  "accepted_detection face =
     (case detected_bbox face of
        None \<Rightarrow> None
      | Some bbox \<Rightarrow>
          if box_width bbox > 0 \<and> box_height bbox > 0 then Some (final_bounds bbox)
          else None)"

section \<open>Capturing (UIController.captureImage and the periodic tracking)\<close>

text \<open>
  The globals the capture path reads and writes. \<open>videoReady\<close> stands for
  \<^verbatim>\<open>video && video.elt && video.elt.readyState >= 2\<close>; \<open>pendingTimeouts\<close> counts the
  callbacks \<^verbatim>\<open>setTimeout\<close> has scheduled and not yet run; \<open>processed\<close> lists the
  frames \<^verbatim>\<open>processImages\<close> was run on; \<open>trackingRuns\<close> counts the calls of
  \<^verbatim>\<open>enableRealTimeFaceTracking\<close>.
\<close>

record 'f app =
  capturedImage :: "'f option"
  isCapturing :: bool
  videoReady :: bool
  cameraActive :: bool
  pendingTimeouts :: nat
  processed :: "'f list"
  trackingRuns :: nat

text \<open>
  What the \<^verbatim>\<open>try\<close> block of \<^verbatim>\<open>captureImage\<close> meets: the frame is created and
  drawn; or \<^verbatim>\<open>createGraphics\<close> raises before \<^verbatim>\<open>capturedImage\<close> is assigned; or
  the drawing raises after the new (blank) graphics was assigned.
\<close>

datatype 'f capture_outcome = Captured 'f | CreateRaised | DrawRaised 'f

text \<open>\<^verbatim>\<open>captureImage()\<close>; the \<^verbatim>\<open>catch\<close> clears \<^verbatim>\<open>isCapturing\<close>.\<close>

definition captureImage :: "'f capture_outcome \<Rightarrow> 'f app \<Rightarrow> 'f app" where
  "captureImage outcome s =
     (if videoReady s then
        (case outcome of
           Captured frame \<Rightarrow>
             s\<lparr>capturedImage := Some frame, isCapturing := True,
               pendingTimeouts := pendingTimeouts s + 1\<rparr>
         | CreateRaised \<Rightarrow> s\<lparr>isCapturing := False\<rparr>
         | DrawRaised blank \<Rightarrow> s\<lparr>capturedImage := Some blank, isCapturing := False\<rparr>)
      else s)"

text \<open>The callback given to \<^verbatim>\<open>setTimeout\<close> by \<^verbatim>\<open>captureImage\<close>.\<close>

definition captureTimeout :: "'f app \<Rightarrow> 'f app" where
  "captureTimeout s =
     (let s1 = s\<lparr>pendingTimeouts := pendingTimeouts s - 1\<rparr>
      in if isCapturing s1 then
           s1\<lparr>processed := processed s1 @ (case capturedImage s1 of None \<Rightarrow> [] | Some f \<Rightarrow> [f]),
              isCapturing := False\<rparr>
         else s1)"

text \<open>The callback given to \<^verbatim>\<open>setInterval\<close> by \<^verbatim>\<open>startPeriodicFaceTracking\<close>.\<close>

definition trackingTick :: "'f app \<Rightarrow> 'f app" where
  "trackingTick s =
     (if cameraActive s \<and> videoReady s \<and> \<not> isCapturing s
      then s\<lparr>trackingRuns := trackingRuns s + 1\<rparr> else s)"

section \<open>Rasters and the graphics store\<close>

text \<open>
  A \<^verbatim>\<open>p5.Graphics\<close> object as the script reads it: \<^verbatim>\<open>width\<close>, \<^verbatim>\<open>height\<close> and
  the \<^verbatim>\<open>pixels\<close> array, four numbers (red, green, blue, alpha) per pixel, row by
  row. \<open>loadable\<close> tells whether \<^verbatim>\<open>loadPixels()\<close> succeeds on the object or raises.
\<close>

record raster =
  img_width :: nat
  img_height :: nat
  pixels :: "real list"
  loadable :: bool

definition wf_raster :: "raster \<Rightarrow> bool" where
  "wf_raster img \<longleftrightarrow> length (pixels img) = 4 * (img_width img * img_height img)"

text \<open>
  Graphics objects are shared by reference, so they live in a store. \<open>failing\<close> lists,
  for the coming calls of \<^verbatim>\<open>createGraphics\<close>, whether the call raises; once the list
  is used up the calls succeed.
\<close>

type_synonym ref = nat

datatype error = GraphicsError | PixelsError | TypeError

record graphics =
  store :: "ref \<Rightarrow> raster option"
  next_ref :: ref
  failing :: "bool list"

definition wf_graphics :: "graphics \<Rightarrow> bool" where
  "wf_graphics g \<longleftrightarrow> (\<forall>r. store g r \<noteq> None \<longrightarrow> r < next_ref g)"

text \<open>A new graphics object: transparent black.\<close>

definition blank :: "nat \<Rightarrow> nat \<Rightarrow> raster" where
  "blank w h = \<lparr>img_width = w, img_height = h, pixels = replicate (4 * (w * h)) 0,
                loadable = True\<rparr>"

definition createGraphics :: "nat \<Rightarrow> nat \<Rightarrow> graphics \<Rightarrow> (error + ref) \<times> graphics" where
  "createGraphics w h g =
     (case failing g of
        True # rest \<Rightarrow> (Inl GraphicsError, g\<lparr>failing := rest\<rparr>)
      | _ \<Rightarrow> (Inr (next_ref g),
              g\<lparr>store := (store g)(next_ref g \<mapsto> blank w h),
                next_ref := Suc (next_ref g), failing := tl (failing g)\<rparr>))"

text \<open>\<^verbatim>\<open>safeCreateGraphics(w, h)\<close> catches the error and returns \<^verbatim>\<open>null\<close>.\<close>

definition safeCreateGraphics :: "nat \<Rightarrow> nat \<Rightarrow> graphics \<Rightarrow> ref option \<times> graphics" where
  "safeCreateGraphics w h g =
     (case createGraphics w h g of
        (Inl e, g1) \<Rightarrow> (None, g1)
      | (Inr output, g1) \<Rightarrow> (Some output, g1))"

section \<open>Colour spaces (class ImageProcessor)\<close>

text \<open>
  The remainder operator \<^verbatim>\<open>%\<close>: the result has the sign of the dividend. The
  remainder of two doubles is a double, so nothing is rounded.
\<close>

definition js_rem :: "real \<Rightarrow> real \<Rightarrow> real" where
  "js_rem a b = a - b * of_int (if a / b \<ge> 0 then \<lfloor>a / b\<rfloor> else \<lceil>a / b\<rceil>)"

definition rgbToHsv :: "real \<Rightarrow> real \<Rightarrow> real \<Rightarrow> int \<times> int \<times> int" where
  "rgbToHsv r0 g0 b0 =
     (let r = double (r0 / 255); g = double (g0 / 255); b = double (b0 / 255);
          mx = max r (max g b);
          mn = min r (min g b);
          diff = double (mx - mn);
          h = (if diff \<noteq> 0 then
                 (if mx = r then js_rem (double (double (g - b) / diff)) 6
                  else if mx = g then double (double (double (b - r) / diff) + 2)
                  else double (double (double (r - g) / diff) + 4))
               else 0);
          h1 = js_round (double (h * 60));
          h2 = (if h1 < 0 then h1 + 360 else h1);
          s = (if mx = 0 then 0 else double (diff / mx));
          v = mx
      in (h2, js_round (double (s * 255)), js_round (double (v * 255))))"

text \<open>
  \<^verbatim>\<open>Math.pow(x, y)\<close> is only applied to positive \<open>x\<close> here. The language leaves the
  precision of \<^verbatim>\<open>Math.pow\<close> to the implementation, so \<^verbatim>\<open>rgbToLab\<close> is modelled in
  exact arithmetic; no statement below depends on the values it returns.
\<close>

definition rgbToLab :: "real \<Rightarrow> real \<Rightarrow> real \<Rightarrow> real \<times> real \<times> real" where
  "rgbToLab r0 g0 b0 =
     (let gamma = (\<lambda>c. if c > 0.04045 then ((c + 0.055) / 1.055) powr 2.4 else c / 12.92);
          r = gamma (r0 / 255); g = gamma (g0 / 255); b = gamma (b0 / 255);
          x = (r * 0.4124564 + g * 0.3575761 + b * 0.1804375) / 0.95047;
          y = (r * 0.2126729 + g * 0.7151522 + b * 0.0721750) / 1.00000;
          z = (r * 0.0193339 + g * 0.1191920 + b * 0.9503041) / 1.08883;
          f = (\<lambda>t. if t > 0.008856 then t powr (1 / 3) else 7.787 * t + 16 / 116);
          fx = f x; fy = f y; fz = f z;
          L = 116 * fy - 16;
          a = 500 * (fx - fy);
          bLab = 200 * (fy - fz)
      in (max 0 (min 255 ((L / 100) * 255)),
          max 0 (min 255 ((a + 128) * 255 / 256)),
          max 0 (min 255 ((bLab + 128) * 255 / 256))))"

section \<open>Pixel transforms (class ImageProcessor)\<close>

text \<open>
  The loop shared by the per-pixel transforms,
  \<^verbatim>\<open>for (let i = 0; i < img.pixels.length; i += 4)\<close>: the three colour channels of the
  output pixel are computed from those of the input pixel, its alpha is 255. Each
  value is stored in the \<^verbatim>\<open>pixels\<close> array of the output, which holds bytes. The
  \<^verbatim>\<open>pixels\<close> array of a graphics object holds four entries per pixel, so the reads at
  \<open>i + 1\<close> and \<open>i + 2\<close> are in range; a write past the end of the output array has no
  effect.
\<close>

function pixel_loop ::
  "(real \<Rightarrow> real \<Rightarrow> real \<Rightarrow> real \<times> real \<times> real) \<Rightarrow> real list \<Rightarrow> nat \<Rightarrow> real list \<Rightarrow> real list"
where
  "pixel_loop f src i out =
     (if i < length src then
        (let c = f (src ! i) (src ! (i + 1)) (src ! (i + 2))
         in pixel_loop f src (i + 4)
              (out[i := to_byte (fst c), i + 1 := to_byte (fst (snd c)),
                   i + 2 := to_byte (snd (snd c)), i + 3 := 255]))
      else out)"
  by pat_completeness auto
termination
  by (relation "measure (\<lambda>(f, src, i, out). length src - i)") auto

declare pixel_loop.simps [simp del]

text \<open>
  \<^verbatim>\<open>output.loadPixels(); img.loadPixels();\<close>, the loop, \<^verbatim>\<open>output.updatePixels();
  return output;\<close> for an output object that has been created.
\<close>

definition fill_pixels ::
  "(real \<Rightarrow> real \<Rightarrow> real \<Rightarrow> real \<times> real \<times> real) \<Rightarrow> raster \<Rightarrow> ref \<Rightarrow> graphics
     \<Rightarrow> (error + ref option) \<times> graphics"
where
  "fill_pixels f img output g =
     (case store g output of
        None \<Rightarrow> (Inl TypeError, g)
      | Some out \<Rightarrow>
          if \<not> loadable out \<or> \<not> loadable img then (Inl PixelsError, g)
          else (Inr (Some output),
                g\<lparr>store := (store g)(output \<mapsto>
                     out\<lparr>pixels := pixel_loop f (pixels img) 0 (pixels out)\<rparr>)\<rparr>))"

text \<open>An unguarded \<^verbatim>\<open>createGraphics\<close> followed by the loop.\<close>

definition create_and_fill ::
  "(real \<Rightarrow> real \<Rightarrow> real \<Rightarrow> real \<times> real \<times> real) \<Rightarrow> ref \<Rightarrow> graphics
     \<Rightarrow> (error + ref option) \<times> graphics"
where
  "create_and_fill f img g =
     (case store g img of
        None \<Rightarrow> (Inl TypeError, g)
      | Some src \<Rightarrow>
          (case createGraphics (img_width src) (img_height src) g of
             (Inl e, g1) \<Rightarrow> (Inl e, g1)
           | (Inr output, g1) \<Rightarrow> fill_pixels f src output g1))"

definition brightened_gray :: "real \<Rightarrow> real \<Rightarrow> real \<Rightarrow> real" where
  "brightened_gray r g b =
     (let gray = double (double (double (double 0.299 * r) + double (double 0.587 * g))
                           + double (double 0.114 * b));
          brightenedGray = double (gray * double 1.2);
          clampedGray = min 255 brightenedGray
      in clampedGray)"

definition createGrayscaleWithBrightness ::
  "ref \<Rightarrow> graphics \<Rightarrow> (error + ref option) \<times> graphics"
where
  "createGrayscaleWithBrightness img g =
     (case store g img of
        None \<Rightarrow> (Inl TypeError, g)
      | Some src \<Rightarrow>
          (case safeCreateGraphics (img_width src) (img_height src) g of
             (None, g1) \<Rightarrow> (Inr None, g1)
           | (Some output, g1) \<Rightarrow>
               fill_pixels (\<lambda>r g b. let c = brightened_gray r g b in (c, c, c)) src output g1))"

text \<open>
  \<^verbatim>\<open>extractColorChannels(img)\<close>: \<^verbatim>\<open>img.loadPixels()\<close>, then one output after the
  other is created and filled.
\<close>

definition extractColorChannels ::
  "ref \<Rightarrow> graphics \<Rightarrow> (error + ref \<times> ref \<times> ref) \<times> graphics"
where
  "extractColorChannels img g =
     (case store g img of
        None \<Rightarrow> (Inl TypeError, g)
      | Some src \<Rightarrow>
          if \<not> loadable src then (Inl PixelsError, g)
          else
            (case create_and_fill (\<lambda>r g b. (r, 0, 0)) img g of
               (Inr (Some redChannel), g1) \<Rightarrow>
                 (case create_and_fill (\<lambda>r g b. (0, g, 0)) img g1 of
                    (Inr (Some greenChannel), g2) \<Rightarrow>
                      (case create_and_fill (\<lambda>r g b. (0, 0, b)) img g2 of
                         (Inr (Some blueChannel), g3) \<Rightarrow>
                           (Inr (redChannel, greenChannel, blueChannel), g3)
                       | (Inr None, g3) \<Rightarrow> (Inl TypeError, g3)
                       | (Inl e, g3) \<Rightarrow> (Inl e, g3))
                  | (Inr None, g2) \<Rightarrow> (Inl TypeError, g2)
                  | (Inl e, g2) \<Rightarrow> (Inl e, g2))
             | (Inr None, g1) \<Rightarrow> (Inl TypeError, g1)
             | (Inl e, g1) \<Rightarrow> (Inl e, g1)))"

text \<open>
  \<^verbatim>\<open>applyChannelThreshold(img, threshold, channelIndex)\<close>; the channel index is 0, 1
  or 2 at every call.
\<close>

definition applyChannelThreshold ::
  "ref \<Rightarrow> real \<Rightarrow> nat \<Rightarrow> graphics \<Rightarrow> (error + ref option) \<times> graphics"
where
  "applyChannelThreshold img threshold channelIndex g =
     create_and_fill
       (\<lambda>r g b. let v = (if [r, g, b] ! channelIndex > threshold then 255 else 0)
                in (v, v, v)) img g"

definition convertToHSV :: "ref \<Rightarrow> graphics \<Rightarrow> (error + ref option) \<times> graphics" where
  "convertToHSV img g =
     create_and_fill
       (\<lambda>r g b. case rgbToHsv r g b of
                  (h, s, v) \<Rightarrow>
                    (double (double (real_of_int h / 360) * 255), real_of_int s, real_of_int v))
       img g"

definition convertToLab :: "ref \<Rightarrow> graphics \<Rightarrow> (error + ref option) \<times> graphics" where
  "convertToLab img g =
     create_and_fill
       (\<lambda>r g b. case rgbToLab r g b of
                  (L, a, b) \<Rightarrow> (max 0 (min 255 L), max 0 (min 255 a), max 0 (min 255 b))) img g"

definition applyColorSpaceThreshold ::
  "ref \<Rightarrow> real \<Rightarrow> graphics \<Rightarrow> (error + ref option) \<times> graphics"
where
  "applyColorSpaceThreshold img threshold g =
     create_and_fill
       (\<lambda>r g b. let intensity = double (double (double (r + g) + b) / 3);
                    v = (if intensity > threshold then 255 else 0)
                in (v, v, v)) img g"

subsection \<open>Pixelation\<close>

definition blockSize :: nat where
  "blockSize = 12"

text \<open>The values of a loop \<^verbatim>\<open>for (let k = i; k < n; k += step)\<close>.\<close>

function stepped :: "nat \<Rightarrow> nat \<Rightarrow> nat \<Rightarrow> nat list" where
  "stepped i n step = (if i < n \<and> 0 < step then i # stepped (i + step) n step else [])"
  by pat_completeness auto
termination
  by (relation "measure (\<lambda>(i, n, step). n - i)") auto

declare stepped.simps [simp del]

text \<open>
  The values of \<^verbatim>\<open>idx\<close> in the two inner loops over the block at \<open>(x, y)\<close>, which
  stop at the edge of the image.
\<close>

definition block_indices :: "nat \<Rightarrow> nat \<Rightarrow> nat \<Rightarrow> nat \<Rightarrow> nat list" where
  "block_indices w h x y =
     [((y + by) * w + (x + bx)) * 4.
        by \<leftarrow> [0..<blockSize], y + by < h, bx \<leftarrow> [0..<blockSize], x + bx < w]"

definition paint :: "real \<Rightarrow> real list \<Rightarrow> nat \<Rightarrow> real list" where
  "paint averageIntensity out idx =
     out[idx := to_byte averageIntensity, idx + 1 := to_byte averageIntensity,
         idx + 2 := to_byte averageIntensity, idx + 3 := 255]"

text \<open>
  The body of the loop over the blocks: average channel 0, paint the block.
  \<^verbatim>\<open>totalIntensity\<close> starts at 0 and grows by \<^verbatim>\<open>totalIntensity += intensity\<close>.
\<close>

definition pixelate_block ::
  "real list \<Rightarrow> nat \<Rightarrow> nat \<Rightarrow> real list \<Rightarrow> nat \<times> nat \<Rightarrow> real list"
where
  "pixelate_block src w h out xy =
     (case xy of (x, y) \<Rightarrow>
        let idxs = block_indices w h x y;
            totalIntensity = foldl (\<lambda>total idx. double (total + src ! idx)) 0 idxs;
            pixelCount = length idxs;
            averageIntensity = real_of_int (js_round (double (totalIntensity / real pixelCount)))
        in foldl (paint averageIntensity) out idxs)"

definition pixelate_loop :: "real list \<Rightarrow> nat \<Rightarrow> nat \<Rightarrow> real list \<Rightarrow> real list" where
  "pixelate_loop src w h out =
     foldl (pixelate_block src w h) out
       [(x, y). y \<leftarrow> stepped 0 h blockSize, x \<leftarrow> stepped 0 w blockSize]"

text \<open>
  \<^verbatim>\<open>pixelateImage(img)\<close>. The argument may be \<^verbatim>\<open>null\<close>, and then reading
  \<^verbatim>\<open>img.width\<close> raises. Where the output cannot be created the input itself is
  returned.
\<close>

definition pixelateImage :: "ref option \<Rightarrow> graphics \<Rightarrow> (error + ref option) \<times> graphics" where
  "pixelateImage img g =
     (case img of
        None \<Rightarrow> (Inl TypeError, g)
      | Some i \<Rightarrow>
          (case store g i of
             None \<Rightarrow> (Inl TypeError, g)
           | Some src \<Rightarrow>
               (case safeCreateGraphics (img_width src) (img_height src) g of
                  (None, g1) \<Rightarrow> (Inr (Some i), g1)
                | (Some output, g1) \<Rightarrow>
                    (case store g1 output of
                       None \<Rightarrow> (Inl TypeError, g1)
                     | Some out \<Rightarrow>
                         if \<not> loadable out \<or> \<not> loadable src then (Inl PixelsError, g1)
                         else (Inr (Some output),
                               g1\<lparr>store := (store g1)(output \<mapsto>
                                    out\<lparr>pixels := pixelate_loop (pixels src) (img_width src)
                                                     (img_height src) (pixels out)\<rparr>)\<rparr>)))))"

subsection \<open>Blur\<close>

text \<open>
  \<^verbatim>\<open>blurImage(img, radius)\<close> draws the input on the new output and calls the p5
  primitive \<^verbatim>\<open>output.filter(BLUR, radius)\<close>, which is not part of the script: it is
  the parameter \<open>blur\<close>, from the radius and the object drawn to the object blurred.
  Where the output cannot be created the input itself is returned.
\<close>

definition blurImage ::
  "(nat \<Rightarrow> raster \<Rightarrow> raster) \<Rightarrow> ref \<Rightarrow> nat \<Rightarrow> graphics \<Rightarrow> (error + ref option) \<times> graphics"
where
  "blurImage blur img radius g =
     (case store g img of
        None \<Rightarrow> (Inl TypeError, g)
      | Some src \<Rightarrow>
          (case safeCreateGraphics (img_width src) (img_height src) g of
             (None, g1) \<Rightarrow> (Inr (Some img), g1)
           | (Some output, g1) \<Rightarrow>
               (case store g1 output of
                  None \<Rightarrow> (Inl TypeError, g1)
                | Some out \<Rightarrow>
                    (Inr (Some output),
                     g1\<lparr>store := (store g1)(output \<mapsto>
                          blur radius (out\<lparr>pixels := pixels src\<rparr>))\<rparr>))))"

section \<open>Face filters (FaceProcessor.processFace)\<close>

text \<open>
  \<^verbatim>\<open>processFace(faceImg, filterType)\<close>. A graphics object always has a
  \<^verbatim>\<open>pixels\<close> array, so the guard at the top answers \<^verbatim>\<open>null\<close> only. Every error
  raised inside the \<^verbatim>\<open>switch\<close> is caught and answered by the input.
\<close>

definition processFace ::
  "(nat \<Rightarrow> raster \<Rightarrow> raster) \<Rightarrow> ref option \<Rightarrow> int \<Rightarrow> graphics \<Rightarrow> ref option \<times> graphics"
where
  "processFace blur faceImg filterType g =
     (case faceImg of
        None \<Rightarrow> (None, g)
      | Some face \<Rightarrow>
          (case
             (if filterType = 1 then createGrayscaleWithBrightness face g
              else if filterType = 2 then
                (case blurImage blur face 25 g of
                   (Inr (Some blurredFace), g1) \<Rightarrow>
                     (case store g1 blurredFace of
                        None \<Rightarrow> (Inl TypeError, g1)
                      | Some b \<Rightarrow>
                          if loadable b then (Inr (Some blurredFace), g1)
                          else (Inl PixelsError, g1))
                 | other \<Rightarrow> other)
              else if filterType = 3 then convertToHSV face g
              else if filterType = 4 then
                (case createGrayscaleWithBrightness face g of
                   (Inr grayscaleFace, g1) \<Rightarrow> pixelateImage grayscaleFace g1
                 | (Inl e, g1) \<Rightarrow> (Inl e, g1))
              else (Inr (Some face), g))
           of
             (Inr result, g') \<Rightarrow> (result, g')
           | (Inl e, g') \<Rightarrow> (Some face, g')))"

section \<open>Face detection heuristics (class FaceProcessor)\<close>

text \<open>
  \<^verbatim>\<open>img.pixels[idx]\<close>: a number, or \<^verbatim>\<open>undefined\<close> (\<open>None\<close>) outside the array.
\<close>

definition pixel_read :: "raster \<Rightarrow> int \<Rightarrow> real option" where
  "pixel_read img idx =
     (if 0 \<le> idx \<and> nat idx < length (pixels img) then Some (pixels img ! nat idx) else None)"

definition isSkinTone :: "real \<Rightarrow> real \<Rightarrow> real \<Rightarrow> bool" where
  "isSkinTone r g b \<longleftrightarrow>
     (r > 95 \<and> g > 40 \<and> b > 20 \<and> max r (max g b) - min r (min g b) > 15 \<and>
        \<bar>r - g\<bar> > 15 \<and> r > g \<and> r > b)
   \<or> (r > 80 \<and> g > 50 \<and> b > 30 \<and> r > g \<and> g > b \<and> r - g > 10)
   \<or> (r > 50 \<and> g > 30 \<and> b > 15 \<and> r > g \<and> g \<ge> b \<and> r - b > 15)
   \<or> (r > 60 \<and> g > 40 \<and> b > 20 \<and> r > b \<and> g > b \<and> (r - b) > 10 \<and> (g - b) > 5)"

text \<open>
  \<^verbatim>\<open>isSkinTone\<close> of the three channels read at \<open>idx\<close>. Each of the four rules
  compares every channel with a number, and a comparison with \<^verbatim>\<open>undefined\<close> is
  false, so the test fails where a channel is \<^verbatim>\<open>undefined\<close>.
\<close>

definition skin_at :: "raster \<Rightarrow> int \<Rightarrow> bool" where
  "skin_at img idx =
     (case (pixel_read img idx, pixel_read img (idx + 1), pixel_read img (idx + 2)) of
        (Some r, Some g, Some b) \<Rightarrow> isSkinTone r g b
      | _ \<Rightarrow> False)"

text \<open>The values of a loop \<^verbatim>\<open>for (let v = i; v <= hi; v += step)\<close>.\<close>

function int_range :: "int \<Rightarrow> int \<Rightarrow> int \<Rightarrow> int list" where
  "int_range i hi step = (if i \<le> hi \<and> 0 < step then i # int_range (i + step) hi step else [])"
  by pat_completeness auto
termination
  by (relation "measure (\<lambda>(i, hi, step). nat (hi + 1 - i))") auto

declare int_range.simps [simp del]

text \<open>
  The pixels \<open>(px, py)\<close> visited by the nested loops
  \<^verbatim>\<open>for (py = y; py < y + height && py < img.height; py++)\<close> and
  \<^verbatim>\<open>for (px = x; px < x + width && px < img.width; px++)\<close>.
\<close>

definition window_pixels :: "raster \<Rightarrow> int \<Rightarrow> int \<Rightarrow> int \<Rightarrow> int \<Rightarrow> (int \<times> int) list" where
  "window_pixels img x y w h =
     [(px, py). py \<leftarrow> [y .. min (y + h) (int (img_height img)) - 1],
                px \<leftarrow> [x .. min (x + w) (int (img_width img)) - 1]]"

definition pixel_index :: "raster \<Rightarrow> int \<times> int \<Rightarrow> int" where
  "pixel_index img p = (case p of (px, py) \<Rightarrow> (py * int (img_width img) + px) * 4)"

subsection \<open>Skin-tone detection\<close>

text \<open>The five regions \<^verbatim>\<open>{x, y, w, h}\<close> of \<^verbatim>\<open>detectBySkinTone\<close>.\<close>

definition skin_regions :: "raster \<Rightarrow> (int \<times> int \<times> int \<times> int) list" where
  "skin_regions img =
     (let W = real (img_width img); H = real (img_height img)
      in [(js_round (W * 0.1), js_round (H * 0.1), js_round (W * 0.4), js_round (H * 0.4)),
          (js_round (W * 0.5), js_round (H * 0.1), js_round (W * 0.4), js_round (H * 0.4)),
          (js_round (W * 0.2), js_round (H * 0.15), js_round (W * 0.6), js_round (H * 0.6)),
          (js_round (W * 0.25), js_round (H * 0.2), js_round (W * 0.5), js_round (H * 0.5)),
          (js_round (W * 0.3), js_round (H * 0.25), js_round (W * 0.4), js_round (H * 0.4))])"

text \<open>
  The callback of \<^verbatim>\<open>regions.forEach\<close>, on the variables \<^verbatim>\<open>bestRegion\<close>,
  \<^verbatim>\<open>maxSkinPixels\<close> and \<^verbatim>\<open>maxSkinRatio\<close>.
\<close>

definition skin_region_step ::
  "raster \<Rightarrow> box option \<times> nat \<times> real \<Rightarrow> int \<times> int \<times> int \<times> int \<Rightarrow> box option \<times> nat \<times> real"
where
  "skin_region_step img acc region =
     (case acc of (bestRegion, maxSkinPixels, maxSkinRatio) \<Rightarrow>
      case region of (x, y, w, h) \<Rightarrow>
        if x + w > int (img_width img) \<or> y + h > int (img_height img) then acc
        else
          let visited = window_pixels img x y w h;
              skinPixelCount = length (filter (\<lambda>p. skin_at img (pixel_index img p)) visited);
              totalPixels = length visited;
              skinRatio = (if totalPixels > 0 then real skinPixelCount / real totalPixels else 0)
          in if skinPixelCount > maxSkinPixels \<and> skinRatio > 0.12 \<and> skinRatio > maxSkinRatio
             then (Some \<lparr>box_x = x, box_y = y, box_width = w, box_height = h\<rparr>,
                   skinPixelCount, skinRatio)
             else acc)"

text \<open>\<^verbatim>\<open>if (best && this.isValidFaceSize(best)) return best; return null;\<close>\<close>

definition valid_or_null :: "box option \<Rightarrow> box option" where
  "valid_or_null best =
     (case best of
        None \<Rightarrow> None
      | Some b \<Rightarrow> if isValidFaceSize b then Some b else None)"

text \<open>
  \<^verbatim>\<open>detectBySkinTone(img)\<close> for an image that is not \<^verbatim>\<open>null\<close>;
  \<^verbatim>\<open>img.loadPixels()\<close> is outside any \<^verbatim>\<open>try\<close>.
\<close>

definition detectBySkinTone :: "raster \<Rightarrow> error + box option" where
  "detectBySkinTone img =
     (if \<not> loadable img then Inl PixelsError
      else case foldl (skin_region_step img) (None, 0, 0) (skin_regions img) of
             (bestRegion, maxSkinPixels, maxSkinRatio) \<Rightarrow> Inr (valid_or_null bestRegion))"

subsection \<open>Motion tracking\<close>

text \<open>
  \<^verbatim>\<open>calculateSkinDensity(img, x, y, width, height)\<close>: only the pixels with
  \<^verbatim>\<open>idx + 2 < img.pixels.length\<close> are counted. Nothing inside its \<^verbatim>\<open>try\<close> raises.
\<close>

definition calculateSkinDensity :: "raster \<Rightarrow> int \<Rightarrow> int \<Rightarrow> int \<Rightarrow> int \<Rightarrow> real" where
  "calculateSkinDensity img x y w h =
     (let counted = filter (\<lambda>p. pixel_index img p + 2 < int (length (pixels img)))
                      (window_pixels img x y w h);
          skinPixels = length (filter (\<lambda>p. skin_at img (pixel_index img p)) counted);
          totalPixels = length counted
      in if totalPixels > 0 then real skinPixels / real totalPixels else 0)"

text \<open>
  The body of the two loops over \<^verbatim>\<open>offsetY\<close> and \<^verbatim>\<open>offsetX\<close>, on the variables
  \<^verbatim>\<open>maxSkinDensity\<close> and \<^verbatim>\<open>bestPosition\<close>.
\<close>

definition motion_step ::
  "raster \<Rightarrow> box \<Rightarrow> real \<times> box option \<Rightarrow> int \<times> int \<Rightarrow> real \<times> box option"
where
  "motion_step img lastPos acc offset =
     (case acc of (maxSkinDensity, bestPosition) \<Rightarrow>
      case offset of (offsetX, offsetY) \<Rightarrow>
        let testX = max 0 (box_x lastPos + offsetX);
            testY = max 0 (box_y lastPos + offsetY)
        in if testX + box_width lastPos \<le> int (img_width img) \<and>
              testY + box_height lastPos \<le> int (img_height img)
           then
             let skinDensity =
                   calculateSkinDensity img testX testY (box_width lastPos) (box_height lastPos)
             in if skinDensity > maxSkinDensity \<and> skinDensity > 0.1
                then (skinDensity,
                      Some \<lparr>box_x = testX, box_y = testY, box_width = box_width lastPos,
                            box_height = box_height lastPos\<rparr>)
                else acc
           else acc)"

definition searchRadius :: int where
  "searchRadius = 25"

text \<open>
  \<^verbatim>\<open>trackByMotion(img)\<close> for an image that is not \<^verbatim>\<open>null\<close>; it returns
  \<^verbatim>\<open>null\<close> before it touches the image when no position is known.
\<close>

definition trackByMotion :: "face_processor \<Rightarrow> raster \<Rightarrow> error + box option" where
  "trackByMotion fp img =
     (case lastKnownFacePosition fp of
        None \<Rightarrow> Inr None
      | Some lastPos \<Rightarrow>
          if \<not> loadable img then Inl PixelsError
          else
            let offsets = int_range (- searchRadius) searchRadius 8
            in case foldl (motion_step img lastPos) (0, None)
                      [(offsetX, offsetY). offsetY \<leftarrow> offsets, offsetX \<leftarrow> offsets] of
                 (maxSkinDensity, bestPosition) \<Rightarrow> Inr (valid_or_null bestPosition))"

subsection \<open>Region scanning\<close>

definition standardDeviation :: "real list \<Rightarrow> real" where
  "standardDeviation values =
     (if values = [] then 0
      else
        let mean = sum_list values / real (length values);
            squaredDiffs = map (\<lambda>val. (val - mean)\<^sup>2) values;
            avgSquaredDiff = sum_list squaredDiffs / real (length values)
        in sqrt avgSquaredDiff)"

text \<open>
  \<^verbatim>\<open>calculateColorVariation\<close>: the sampled pixels are those of the loops with step
  \<^verbatim>\<open>stepSize\<close> that pass \<^verbatim>\<open>idx + 2 < img.pixels.length\<close>, so their channels are
  in range.
\<close>

definition calculateColorVariation :: "raster \<Rightarrow> int \<Rightarrow> int \<Rightarrow> int \<Rightarrow> int \<Rightarrow> real" where
  "calculateColorVariation img x y w h =
     (let stepSize = max 1 (js_round (real_of_int w / 10));
          sampled = filter (\<lambda>p. pixel_index img p + 2 < int (length (pixels img)))
                      [(px, py).
                         py \<leftarrow> int_range y (min (y + h) (int (img_height img)) - 1) stepSize,
                         px \<leftarrow> int_range x (min (x + w) (int (img_width img)) - 1) stepSize];
          rValues = map (\<lambda>p. pixels img ! nat (pixel_index img p)) sampled;
          gValues = map (\<lambda>p. pixels img ! nat (pixel_index img p + 1)) sampled;
          bValues = map (\<lambda>p. pixels img ! nat (pixel_index img p + 2)) sampled;
          rVariation = standardDeviation rValues;
          gVariation = standardDeviation gValues;
          bVariation = standardDeviation bValues;
          avgVariation = (rVariation + gVariation + bVariation) / 3
      in min 1.0 (avgVariation / 40))"

text \<open>\<^verbatim>\<open>Math.max(0, Math.min(1, v))\<close>\<close>

definition clamp01 :: "real \<Rightarrow> real" where
  "clamp01 v = max 0 (min 1 v)"

text \<open>
  \<^verbatim>\<open>scoreFaceRegion\<close>: \<^verbatim>\<open>img.loadPixels()\<close> is inside the \<^verbatim>\<open>try\<close>, and the
  \<^verbatim>\<open>catch\<close> returns 0.
\<close>

definition scoreFaceRegion :: "raster \<Rightarrow> int \<Rightarrow> int \<Rightarrow> int \<Rightarrow> int \<Rightarrow> real" where
  "scoreFaceRegion img x y w h =
     (if \<not> loadable img then 0
      else
        let H = real (img_height img);
            skinToneScore = calculateSkinDensity img x y w h;
            positionScore =
              clamp01 (1.0 - \<bar>(real_of_int y + real_of_int h / 2) - H * 0.35\<bar> / (H * 0.35));
            variationScore = calculateColorVariation img x y w h;
            sizeScore = clamp01 (1.0 - \<bar>(real_of_int w + real_of_int h) / 2 - 50\<bar> / 50);
            aspectRatio = real_of_int w / real_of_int h;
            aspectScore = clamp01 (1.0 - \<bar>aspectRatio - 0.8\<bar> / 0.8);
            finalScore = (skinToneScore * 0.4) + (positionScore * 0.25) +
                         (variationScore * 0.15) + (sizeScore * 0.1) + (aspectScore * 0.1)
        in finalScore)"

text \<open>
  The values of \<^verbatim>\<open>scale\<close> in \<^verbatim>\<open>for (let scale = 0.3; scale <= 0.7; scale += 0.1)\<close>
  (five iterations in double precision as well).
\<close>

definition scan_scales :: "real list" where
  "scan_scales = [0.3, 0.4, 0.5, 0.6, 0.7]"

text \<open>The windows \<open>(x, y, scanWidth, scanHeight)\<close> of one scale, in the order of the loops.\<close>

definition scale_windows :: "raster \<Rightarrow> real \<Rightarrow> (int \<times> int \<times> int \<times> int) list" where
  "scale_windows img scale =
     (let scanWidth = js_round (max 35 (min 80 (real (img_width img) * scale)));
          scanHeight = js_round (max 35 (min 80 (real (img_height img) * scale)));
          stepSize = max 8 (js_round (real_of_int scanWidth * 0.2))
      in [(x, y, scanWidth, scanHeight).
            y \<leftarrow> int_range 0 (int (img_height img) - scanHeight) stepSize,
            x \<leftarrow> int_range 0 (int (img_width img) - scanWidth) stepSize])"

definition scan_windows :: "raster \<Rightarrow> (int \<times> int \<times> int \<times> int) list" where
  "scan_windows img = concat (map (scale_windows img) scan_scales)"

text \<open>The body of the innermost loop, on \<^verbatim>\<open>bestPosition\<close> and \<^verbatim>\<open>maxScore\<close>.\<close>

definition scan_step ::
  "raster \<Rightarrow> box option \<times> real \<Rightarrow> int \<times> int \<times> int \<times> int \<Rightarrow> box option \<times> real"
where
  "scan_step img acc window =
     (case acc of (bestPosition, maxScore) \<Rightarrow>
      case window of (x, y, scanWidth, scanHeight) \<Rightarrow>
        let score = scoreFaceRegion img x y scanWidth scanHeight
        in if score > maxScore
           then (Some \<lparr>box_x = x, box_y = y, box_width = scanWidth, box_height = scanHeight\<rparr>,
                 score)
           else acc)"

definition scanForFaceRegions :: "raster \<Rightarrow> box option" where
  "scanForFaceRegions img =
     (case foldl (scan_step img) (None, 0) (scan_windows img) of
        (bestPosition, maxScore) \<Rightarrow>
          if bestPosition \<noteq> None \<and> maxScore > 0.15 then bestPosition else None)"

subsection \<open>The fallback and the orchestration\<close>

definition getDefaultCenterFace :: box where
  "getDefaultCenterFace =
     (let width = js_round (real_of_int imageProcessor_width * 0.5);
          height = js_round (real_of_int imageProcessor_height * 0.5);
          x = js_round (real_of_int (imageProcessor_width - width) / 2);
          y = js_round (real_of_int (imageProcessor_height - height) / 2)
      in \<lparr>box_x = max 0 x, box_y = max 0 y,
          box_width = min width (imageProcessor_width - x),
          box_height = min height (imageProcessor_height - y)\<rparr>)"

text \<open>\<^verbatim>\<open>skinToneFace || motionFace || scanFace\<close>, then the centre box if that is null.\<close>

definition first_face :: "box option \<Rightarrow> box option \<Rightarrow> box option \<Rightarrow> box" where
  "first_face skinToneFace motionFace scanFace =
     (case skinToneFace of
        Some b \<Rightarrow> b
      | None \<Rightarrow>
          (case motionFace of
             Some b \<Rightarrow> b
           | None \<Rightarrow> (case scanFace of Some b \<Rightarrow> b | None \<Rightarrow> getDefaultCenterFace)))"

text \<open>
  \<^verbatim>\<open>detectFaceManually(faceImage, capturedImage)\<close>: the box it returns and the
  tracker's new state. All three strategies run before the choice. An error raised by
  a strategy is caught: the centre box is returned and the history is left as it was.
  \<^verbatim>\<open>applyFaceFilter\<close>, called on both paths, draws on \<^verbatim>\<open>faceImage\<close>, catches
  every error it meets and touches neither the box nor the tracker.
\<close>

definition detectFaceManually ::
  "face_processor \<Rightarrow> raster option \<Rightarrow> raster option \<Rightarrow> box \<times> face_processor"
where
  "detectFaceManually fp faceImage captured =
     (case (faceImage, captured) of
        (Some canvas, Some img) \<Rightarrow>
          (case detectBySkinTone img of
             Inl e \<Rightarrow> (getDefaultCenterFace, fp)
           | Inr skinToneFace \<Rightarrow>
               (case trackByMotion fp img of
                  Inl e \<Rightarrow> (getDefaultCenterFace, fp)
                | Inr motionFace \<Rightarrow>
                    let scanFace = scanForFaceRegions img;
                        bestFace = first_face skinToneFace motionFace scanFace
                    in (bestFace, updateFaceHistory fp (Some bestFace))))
      | _ \<Rightarrow> (getDefaultCenterFace, fp))"

text \<open>A state in which a captured frame (frame 1) awaits its processing.\<close>

definition busy_app :: "nat app" where
  "busy_app = \<lparr>capturedImage = Some 1, isCapturing = True, videoReady = True,
                cameraActive = True, pendingTimeouts = 1, processed = [], trackingRuns = 0\<rparr>"

text \<open>A box of the given size at the origin.\<close>

definition sized :: "int \<Rightarrow> int \<Rightarrow> box" where
  "sized w h = \<lparr>box_x = 0, box_y = 0, box_width = w, box_height = h\<rparr>"

text \<open>Nine calls: six boxes of valid size, two of invalid size, one \<^verbatim>\<open>null\<close>.\<close>

definition example_calls :: "box option list" where
  "example_calls =
     [Some (sized 30 30), Some (sized 29 50), None, Some (sized 40 41), Some (sized 50 51),
      Some (sized 60 61), Some (sized 101 60), Some (sized 70 71), Some (sized 100 100)]"

text \<open>Whether the next call of \<^verbatim>\<open>createGraphics\<close> succeeds.\<close>

definition creation_succeeds :: "graphics \<Rightarrow> bool" where
  "creation_succeeds g \<longleftrightarrow> (case failing g of True # rest \<Rightarrow> False | _ \<Rightarrow> True)"

text \<open>The four channels of pixel number \<open>p\<close>.\<close>

definition pixel_at :: "raster \<Rightarrow> nat \<Rightarrow> real \<times> real \<times> real \<times> real" where
  "pixel_at img p =
     (pixels img ! (4 * p), pixels img ! (4 * p + 1), pixels img ! (4 * p + 2),
      pixels img ! (4 * p + 3))"

text \<open>A store holding one raster, a single white pixel; no creation fails.\<close>

definition white_pixel_store :: graphics where
  "white_pixel_store =
     \<lparr>store = Map.empty(0 \<mapsto> \<lparr>img_width = 1, img_height = 1,
                                  pixels = [255, 255, 255, 255], loadable = True\<rparr>),
      next_ref = 1, failing = []\<rparr>"



text \<open>A store holding one raster, a single pixel of colour (10, 20, 30); no creation fails.\<close>

definition tinted_pixel_store :: graphics where
  "tinted_pixel_store =
     \<lparr>store = Map.empty(0 \<mapsto> \<lparr>img_width = 1, img_height = 1,
                                  pixels = [10, 20, 30, 255], loadable = True\<rparr>),
      next_ref = 1, failing = []\<rparr>"

text \<open>Every raster that exists before a call is the same raster, pixel for pixel, after it.\<close>

definition preserves :: "graphics \<Rightarrow> graphics \<Rightarrow> bool" where
  "preserves g g' \<longleftrightarrow> (\<forall>r. store g r \<noteq> None \<longrightarrow> store g' r = store g r)"

text \<open>The reference holds no raster before the call and holds one after it.\<close>

definition newly_created :: "graphics \<Rightarrow> graphics \<Rightarrow> ref \<Rightarrow> bool" where
  "newly_created g g' output \<longleftrightarrow> store g output = None \<and> store g' output \<noteq> None"

text \<open>A store holding one raster, a single white pixel; the next creation fails.\<close>

definition exhausted_store :: graphics where
  "exhausted_store =
     \<lparr>store = Map.empty(0 \<mapsto> \<lparr>img_width = 1, img_height = 1,
                                  pixels = [255, 255, 255, 255], loadable = True\<rparr>),
      next_ref = 1, failing = [True]\<rparr>"

text \<open>The box lies inside the image.\<close>

definition within_frame :: "raster \<Rightarrow> box \<Rightarrow> bool" where
  "within_frame img b \<longleftrightarrow>
     0 \<le> box_x b \<and> 0 \<le> box_y b \<and>
     box_x b + box_width b \<le> int (img_width img) \<and>
     box_y b + box_height b \<le> int (img_height img)"

text \<open>A black frame of the default size whose pixels load.\<close>

definition black_frame :: raster where
  "black_frame = \<lparr>img_width = 160, img_height = 120, pixels = replicate 76800 0,
                   loadable = True\<rparr>"

text \<open>
  The standard conversion from HSV back to RGB, which the round-trip property composes
  with \<^verbatim>\<open>rgbToHsv\<close> (the script has no such function): hue in degrees, saturation
  and value on the scale 0 to 255 that \<^verbatim>\<open>rgbToHsv\<close> returns, channels on the scale 0
  to 255. The formula is evaluated on real numbers; an 8-bit channel is its value
  rounded to the nearest integer. \<open>fmod2\<close> is the remainder modulo 2 of a
  non-negative number.
\<close>

definition fmod2 :: "real \<Rightarrow> real" where
  "fmod2 x = x - 2 * of_int \<lfloor>x / 2\<rfloor>"

definition hsvToRgb :: "real \<Rightarrow> real \<Rightarrow> real \<Rightarrow> real \<times> real \<times> real" where
  "hsvToRgb h s v =
     (let c = (v / 255) * (s / 255);
          hp = h / 60;
          x = c * (1 - \<bar>fmod2 hp - 1\<bar>);
          rgb1 = (if hp < 1 then (c, x, 0)
                  else if hp < 2 then (x, c, 0)
                  else if hp < 3 then (0, c, x)
                  else if hp < 4 then (0, x, c)
                  else if hp < 5 then (x, 0, c)
                  else (c, 0, x));
          m = v / 255 - c
      in case rgb1 of (r1, g1, b1) \<Rightarrow> ((r1 + m) * 255, (g1 + m) * 255, (b1 + m) * 255))"

text \<open>The three reconstructed channels are each within 5/2 of the original ones.\<close>

definition near_triple :: "real \<times> real \<times> real \<Rightarrow> int \<Rightarrow> int \<Rightarrow> int \<Rightarrow> bool" where
  "near_triple rgb r g b \<longleftrightarrow>
     (case rgb of (r', g', b') \<Rightarrow>
        \<bar>r' - real_of_int r\<bar> < 5 / 2 \<and> \<bar>g' - real_of_int g\<bar> < 5 / 2
        \<and> \<bar>b' - real_of_int b\<bar> < 5 / 2)"

text \<open>
  A store holding one raster, a single pixel of colour (10, 20, 30); the first creation
  succeeds and the second fails.
\<close>

definition second_fails_store :: graphics where
  "second_fails_store =
     \<lparr>store = Map.empty(0 \<mapsto> \<lparr>img_width = 1, img_height = 1,
                                  pixels = [10, 20, 30, 255], loadable = True\<rparr>),
      next_ref = 1, failing = [False, True]\<rparr>"

text \<open>
  A bound of the relative error of rounding to a double, which is \<open>2\<^sup>-\<^sup>5\<^sup>3\<close>.
\<close>

definition eps :: real where
  "eps = 1 / 10 ^ 15"

text \<open>
  A store holding one raster of two pixels, (10, 20, 30) and white; no creation fails.
\<close>

definition two_pixel_store :: graphics where
  "two_pixel_store =
     \<lparr>store = Map.empty(0 \<mapsto> \<lparr>img_width = 2, img_height = 1,
                                  pixels = [10, 20, 30, 255, 255, 255, 255, 255],
                                  loadable = True\<rparr>),
      next_ref = 1, failing = []\<rparr>"



text \<open>
  A store holding one raster of 2 by 2 pixels, three black and one white; no creation
  fails.
\<close>

definition quad_store :: graphics where
  "quad_store =
     \<lparr>store = Map.empty(0 \<mapsto> \<lparr>img_width = 2, img_height = 2,
                                  pixels = [0, 0, 0, 255, 0, 0, 0, 255, 0, 0, 0, 255, 255, 255, 255, 255],
                                  loadable = True\<rparr>),
      next_ref = 1, failing = []\<rparr>"

section \<open>Rounding to doubles and to bytes\<close>

lemma round_half_even_near: "\<bar>real_of_int (round_half_even x) - x\<bar> \<le> 1 / 2"
  unfolding round_half_even_def Let_def by (auto; linarith)

lemma round_half_even_of_int: "round_half_even (of_int k) = k"
  by (simp add: round_half_even_def)

lemma binary_exponent_bounds:
  assumes "0 < x"
  shows "2 powi binary_exponent x \<le> x" and "x < 2 powi (binary_exponent x + 1)"
proof -
  have "2 powi binary_exponent x \<le> x \<and> x < 2 powi (binary_exponent x + 1)"
  proof (cases "x \<ge> 1")
    case True
    let ?n = "\<lfloor>x\<rfloor>"
    have n: "0 < ?n" using True by simp
    from bitlen_bounds [OF n] have lo: "2 ^ nat (bitlen ?n - 1) \<le> ?n" and hi: "?n < 2 ^ nat (bitlen ?n)"
      by simp_all
    have b1: "1 \<le> bitlen ?n" using n by (simp add: bitlen_alt_def)
    have e: "binary_exponent x = bitlen ?n - 1" using True by (simp add: binary_exponent_def)
    have "real_of_int (2 ^ nat (bitlen ?n - 1)) \<le> real_of_int ?n" using lo by linarith
    also have "\<dots> \<le> x" by simp
    finally have l: "2 powi (bitlen ?n - 1) \<le> x"
      using b1 by (simp add: power_int_def)
    have "?n + 1 \<le> 2 ^ nat (bitlen ?n)" using hi by simp
    then have "real_of_int (?n + 1) \<le> real_of_int (2 ^ nat (bitlen ?n))" by linarith
    moreover have "x < real_of_int (?n + 1)" by linarith
    ultimately have "x < real_of_int (2 ^ nat (bitlen ?n))" by linarith
    then have "x < 2 powi (bitlen ?n)"
      using b1 by (simp add: power_int_def)
    then show ?thesis using l e by simp
  next
    case False
    define y where "y = 1 / x"
    define m where "m = \<lceil>y\<rceil> - 1"
    have y: "1 < y" using False assms by (simp add: y_def)
    have m: "0 < m" using y by (simp add: m_def)
    from bitlen_bounds [OF m] have lo: "2 ^ nat (bitlen m - 1) \<le> m" and hi: "m < 2 ^ nat (bitlen m)"
      by simp_all
    have b1: "1 \<le> bitlen m" using m by (simp add: bitlen_alt_def)
    have e: "binary_exponent x = - bitlen m"
      using False by (simp add: binary_exponent_def m_def y_def)
    define P where "P = (2::real) ^ nat (bitlen m)"
    define Q where "Q = (2::real) ^ nat (bitlen m - 1)"
    have P: "0 < P" and Q: "0 < Q" by (simp_all add: P_def Q_def)
    have my: "real_of_int m < y" "y \<le> real_of_int m + 1" unfolding m_def by linarith+
    have "m + 1 \<le> 2 ^ nat (bitlen m)" using hi by simp
    then have "real_of_int (m + 1) \<le> real_of_int (2 ^ nat (bitlen m))" by linarith
    then have "real_of_int m + 1 \<le> P" by (simp add: P_def)
    then have "y \<le> P" using my by linarith
    then have "1 \<le> P * x" using assms by (simp add: y_def field_simps)
    then have "1 / P \<le> x" using P by (simp add: field_simps)
    moreover have "2 powi (- bitlen m) = 1 / P"
      using b1 by (simp add: power_int_def P_def field_simps)
    ultimately have l: "2 powi (- bitlen m) \<le> x" by simp
    have "real_of_int (2 ^ nat (bitlen m - 1)) \<le> real_of_int m" using lo by linarith
    then have "Q \<le> real_of_int m" by (simp add: Q_def)
    then have "Q < y" using my by linarith
    then have "Q * x < 1" using assms by (simp add: y_def field_simps)
    then have "x < 1 / Q" using Q by (simp add: field_simps)
    moreover have "2 powi (- bitlen m + 1) = 1 / Q"
    proof (cases "bitlen m = 1")
      case True
      then show ?thesis by (simp add: Q_def)
    next
      case False
      then have "- bitlen m + 1 < 0" using b1 by simp
      moreover have "nat (- (- bitlen m + 1)) = nat (bitlen m - 1)" by simp
      ultimately show ?thesis by (simp add: power_int_def Q_def field_simps)
    qed
    ultimately have "x < 2 powi (- bitlen m + 1)" by simp
    then show ?thesis using l e by simp
  qed
  then show "2 powi binary_exponent x \<le> x" and "x < 2 powi (binary_exponent x + 1)" by simp_all
qed

lemma double_zero: "double 0 = 0"
  by (simp add: double_def)

lemma double_error: "\<bar>double x - x\<bar> \<le> \<bar>x\<bar> / 2 ^ 53"
proof (cases "x = 0")
  case True
  then show ?thesis by (simp add: double_def)
next
  case False
  define e where "e = binary_exponent \<bar>x\<bar>"
  define q :: real where "q = 2 powi (e - 52)"
  define n where "n = round_half_even (x / q)"
  have q: "0 < q" by (simp add: q_def zero_less_power_int)
  have d: "double x = q * of_int n"
    using False by (simp add: double_def Let_def q_def e_def n_def)
  have "\<bar>x\<bar> > 0" using False by simp
  from binary_exponent_bounds(1) [OF this] have lo: "2 powi e \<le> \<bar>x\<bar>" by (simp add: e_def)
  have qe: "q = 2 powi e / 2 ^ 52" by (simp add: q_def power_int_diff)
  have "q * of_int n - x = q * (of_int n - x / q)" using q by (simp add: field_simps)
  then have "\<bar>q * of_int n - x\<bar> = q * \<bar>of_int n - x / q\<bar>" using q by (simp add: abs_mult)
  also have "\<dots> \<le> q * (1 / 2)"
    using q round_half_even_near [of "x / q"] unfolding n_def by (intro mult_left_mono) simp_all
  also have "\<dots> = 2 powi e / 2 ^ 53" by (simp add: qe)
  also have "\<dots> \<le> \<bar>x\<bar> / 2 ^ 53" using lo by (intro divide_right_mono) simp_all
  finally show ?thesis unfolding d .
qed

lemma double_eq_0_iff: "double x = 0 \<longleftrightarrow> x = 0"
proof
  assume z: "double x = 0"
  show "x = 0"
  proof (rule ccontr)
    assume "x \<noteq> 0"
    then have p: "0 < \<bar>x\<bar>" by simp
    have "\<bar>x\<bar> \<le> \<bar>x\<bar> / 2 ^ 53" using double_error [of x] z by simp
    then show False using p by (simp add: field_simps)
  qed
qed (simp add: double_zero)

lemma double_exact:
  assumes "\<bar>m\<bar> < 2 ^ 53"
  shows "double (of_int m * 2 powi j) = of_int m * 2 powi j"
proof (cases "m = 0")
  case True
  then show ?thesis by (simp add: double_zero)
next
  case False
  define x :: real where "x = of_int m * 2 powi j"
  define e where "e = binary_exponent \<bar>x\<bar>"
  define q :: real where "q = 2 powi (e - 52)"
  have x0: "x \<noteq> 0" using False by (simp add: x_def)
  then have "\<bar>x\<bar> > 0" by simp
  from binary_exponent_bounds(1) [OF this] have lo: "2 powi e \<le> \<bar>x\<bar>" by (simp add: e_def)
  have "real_of_int \<bar>m\<bar> < real_of_int (2 ^ 53)" using assms by linarith
  then have "\<bar>real_of_int m\<bar> < 2 ^ 53" by simp
  then have "\<bar>x\<bar> < 2 ^ 53 * 2 powi j"
    unfolding x_def abs_mult by (simp add: zero_less_power_int)
  also have "\<dots> = 2 powi (53 + j)" by (simp add: power_int_add)
  finally have "(2::real) powi e < 2 powi (53 + j)" using lo by simp
  then have "e < 53 + j"
    using power_int_increasing [of "53 + j" e "2::real"] by (cases "e < 53 + j") simp_all
  then have k: "0 \<le> j - (e - 52)" by simp
  define k where "k = nat (j - (e - 52))"
  have jk: "j = (e - 52) + int k" using k by (simp add: k_def)
  have "x / q = of_int m * (2 powi j / 2 powi (e - 52))" by (simp add: x_def q_def)
  also have "2 powi j / 2 powi (e - 52) = (2::real) powi (int k)"
    unfolding jk by (simp add: power_int_add)
  also have "of_int m * (2::real) powi (int k) = of_int (m * 2 ^ k)" by simp
  finally have xq: "x / q = of_int (m * 2 ^ k)" .
  have "double x = q * of_int (round_half_even (x / q))"
    using x0 by (simp add: double_def Let_def q_def e_def)
  also have "\<dots> = q * (x / q)" unfolding xq round_half_even_of_int ..
  also have "\<dots> = x" by (simp add: q_def)
  finally show ?thesis unfolding x_def .
qed

lemma double_of_int: "\<bar>m\<bar> < 2 ^ 53 \<Longrightarrow> double (of_int m) = of_int m"
  using double_exact [of m 0] by simp

lemma to_byte_range: "0 \<le> to_byte x \<and> to_byte x \<le> 255"
proof -
  have "0 \<le> round_half_even x \<and> round_half_even x \<le> 255" if "0 < x" "x < 255"
  proof -
    have "0 \<le> \<lfloor>x\<rfloor>" "\<lfloor>x\<rfloor> \<le> 254" using that by (simp_all add: floor_le_iff)
    then show ?thesis unfolding round_half_even_def Let_def by auto
  qed
  then show ?thesis unfolding to_byte_def by auto
qed

lemma to_byte_int: "to_byte x \<in> \<int>"
  unfolding to_byte_def by simp

lemma to_byte_near: "0 \<le> x \<Longrightarrow> x \<le> 255 \<Longrightarrow> \<bar>to_byte x - x\<bar> \<le> 1 / 2"
  unfolding to_byte_def using round_half_even_near [of x] by auto

lemma to_byte_of_int: "0 \<le> k \<Longrightarrow> k \<le> 255 \<Longrightarrow> to_byte (of_int k) = of_int k"
  unfolding to_byte_def by (auto simp: round_half_even_of_int)

lemma round_half_even_between:
  assumes "real_of_int n - 1 / 2 < x" "x < real_of_int n + 1 / 2"
  shows "round_half_even x = n"
proof -
  have "\<bar>real_of_int (round_half_even x) - x\<bar> \<le> 1 / 2" by (rule round_half_even_near)
  then have "\<bar>real_of_int (round_half_even x) - real_of_int n\<bar> < 1" using assms by linarith
  then have "\<bar>real_of_int (round_half_even x - n)\<bar> < 1" by simp
  then have "\<bar>round_half_even x - n\<bar> < 1" by linarith
  then show ?thesis by simp
qed

lemma to_byte_between:
  assumes "real_of_int n - 1 / 2 < x" "x < real_of_int n + 1 / 2" "0 \<le> n" "n \<le> 255"
  shows "to_byte x = of_int n"
proof -
  have r: "round_half_even x = n" using assms(1,2) by (rule round_half_even_between)
  show ?thesis
  proof (cases "x \<le> 0")
    case True
    then have "n = 0" using assms by linarith
    then show ?thesis using True by (simp add: to_byte_def)
  next
    case False
    show ?thesis
    proof (cases "x \<ge> 255")
      case True
      then have "n = 255" using assms by linarith
      then show ?thesis using True False by (simp add: to_byte_def)
    next
      case f: False
      then show ?thesis using False r by (simp add: to_byte_def)
    qed
  qed
qed

lemma eps_bounds:
  "0 < eps" "1 / 2 ^ 53 \<le> eps" "1000000 * eps \<le> 1 / 10 ^ 9" "1000000 * eps \<le> 1 / 1000"
  by (simp_all add: eps_def)

lemma double_close:
  assumes "\<bar>x - y\<bar> \<le> e" and "\<bar>y\<bar> \<le> M" and "e \<le> 1"
  shows "\<bar>double x - y\<bar> \<le> e + (M + 1) * eps"
proof -
  have "\<bar>x\<bar> \<le> M + 1" using assms by linarith
  then have "\<bar>x\<bar> / 2 ^ 53 \<le> (M + 1) / 2 ^ 53" by (intro divide_right_mono) simp_all
  also have "\<dots> = (M + 1) * (1 / 2 ^ 53)" by simp
  also have "\<dots> \<le> (M + 1) * eps"
    using assms(2) by (intro mult_left_mono eps_bounds) linarith
  finally have "\<bar>x\<bar> / 2 ^ 53 \<le> (M + 1) * eps" .
  then show ?thesis using double_error [of x] assms(1) by linarith
qed

lemma mult_close:
  fixes x y x0 y0 :: real
  assumes "\<bar>x - x0\<bar> \<le> e1" and "\<bar>y - y0\<bar> \<le> e2" and "\<bar>x0\<bar> \<le> X" and "\<bar>y\<bar> \<le> Y"
  shows "\<bar>x * y - x0 * y0\<bar> \<le> e1 * Y + X * e2"
proof -
  have e: "x * y - x0 * y0 = (x - x0) * y + x0 * (y - y0)" by (simp add: algebra_simps)
  have "\<bar>(x - x0) * y\<bar> \<le> e1 * Y"
    unfolding abs_mult using assms(1,4) by (intro mult_mono) simp_all
  moreover have "\<bar>x0 * (y - y0)\<bar> \<le> X * e2"
    unfolding abs_mult using assms(2,3) by (intro mult_mono) simp_all
  ultimately show ?thesis unfolding e by linarith
qed

section \<open>The tracking history\<close>

lemma keep_last_snoc:
  "keep_last (Suc n) (keep_last (Suc n) xs @ [x]) = keep_last (Suc n) (xs @ [x])"
proof (cases "length xs \<le> Suc n")
  case True
  then show ?thesis by (simp add: keep_last_def)
next
  case False
  then have "length xs - n = Suc (length xs - Suc n)" by arith
  then show ?thesis using False by (simp add: keep_last_def)
qed

lemma keep_last_short: "length xs \<le> n \<Longrightarrow> keep_last n xs = xs"
  by (simp add: keep_last_def)

lemma length_keep_last: "length (keep_last n xs) \<le> n"
  by (simp add: keep_last_def)

lemma set_keep_last: "set (keep_last n xs) \<subseteq> set xs"
  by (simp add: keep_last_def set_drop_subset)

lemma shift_is_keep_last:
  "length h \<le> 5 \<Longrightarrow> (if length (h @ [b]) > 5 then tl (h @ [b]) else h @ [b]) = keep_last 5 (h @ [b])"
proof (cases "length h = 5")
  case True
  then obtain a list where "h = a # list" by (cases h) auto
  then show ?thesis using True by (simp add: keep_last_def)
next
  case False
  assume "length h \<le> 5"
  then show ?thesis using False by (simp add: keep_last_def)
qed

lemma updateFaceHistory_rejects:
  "\<not> isValidFaceSize face \<Longrightarrow> updateFaceHistory fp (Some face) = fp"
  by (simp add: updateFaceHistory_def)

lemma updateFaceHistory_accepts:
  assumes "isValidFaceSize face" and "length (faceTrackingHistory fp) \<le> 5"
  shows "updateFaceHistory fp (Some face) =
           fp\<lparr>faceTrackingHistory := keep_last 5 (faceTrackingHistory fp @ [face]),
              lastKnownFacePosition := Some face\<rparr>"
  using assms shift_is_keep_last [of "faceTrackingHistory fp" face]
  by (simp add: updateFaceHistory_def maxHistoryLength_def Let_def)

lemma history_after_calls:
  "faceTrackingHistory fp = keep_last 5 h \<Longrightarrow>
   faceTrackingHistory (foldl updateFaceHistory fp calls) = keep_last 5 (h @ accepted calls)"
proof (induction calls arbitrary: fp h)
  case Nil
  then show ?case by simp
next
  case (Cons c calls)
  show ?case
  proof (cases c)
    case None
    then show ?thesis using Cons by (simp add: updateFaceHistory_def)
  next
    case (Some face)
    show ?thesis
    proof (cases "isValidFaceSize face")
      case False
      then show ?thesis using Cons Some by (simp add: updateFaceHistory_rejects)
    next
      case True
      have len: "length (faceTrackingHistory fp) \<le> 5"
        using Cons.prems length_keep_last [of 5 h] by simp
      have "faceTrackingHistory (updateFaceHistory fp (Some face)) = keep_last 5 (keep_last 5 h @ [face])"
        using updateFaceHistory_accepts [OF True len] Cons.prems by simp
      also have "\<dots> = keep_last 5 ((h @ [face]))"
        using keep_last_snoc [of 4 h face] by (simp add: eval_nat_numeral)
      finally show ?thesis
        using Cons.IH [of "updateFaceHistory fp (Some face)" "h @ [face]"] Some True by simp
    qed
  qed
qed

lemma last_known_after_calls:
  "lastKnownFacePosition (foldl updateFaceHistory fp calls) =
     (if accepted calls = [] then lastKnownFacePosition fp else Some (last (accepted calls)))"
proof (induction calls arbitrary: fp)
  case Nil
  then show ?case by simp
next
  case (Cons c calls)
  show ?case
  proof (cases c)
    case None
    then show ?thesis using Cons by (simp add: updateFaceHistory_def)
  next
    case (Some face)
    then show ?thesis using Cons
      by (simp add: updateFaceHistory_def Let_def)
  qed
qed

lemma accepted_valid: "face \<in> set (accepted calls) \<Longrightarrow> isValidFaceSize face"
  by (induction calls rule: accepted.induct) (auto split: if_splits)

text \<open>
  C5. After any sequence of \<^verbatim>\<open>updateFaceHistory\<close> calls on a new
  \<^verbatim>\<open>FaceProcessor\<close>, the history is the last five accepted boxes in call order
  (so it holds at most five boxes, most recent last), every stored box passes
  \<^verbatim>\<open>isValidFaceSize\<close>, that is, has width and height in [30, 100], and
  \<^verbatim>\<open>lastKnownFacePosition\<close> is the most recently accepted box (unset while none
  was accepted); a call with a box failing \<^verbatim>\<open>isValidFaceSize\<close> changes nothing,
  in any state.
\<close>

theorem history_invariant:
  fixes calls :: "box option list"
  defines "fp \<equiv> foldl updateFaceHistory new_FaceProcessor calls"
  shows "length (faceTrackingHistory fp) \<le> 5
       \<and> faceTrackingHistory fp = keep_last 5 (accepted calls)
       \<and> (\<forall>face \<in> set (faceTrackingHistory fp).
             isValidFaceSize face \<and> 30 \<le> box_width face \<and> box_width face \<le> 100
             \<and> 30 \<le> box_height face \<and> box_height face \<le> 100)
       \<and> lastKnownFacePosition fp =
             (if accepted calls = [] then None else Some (last (accepted calls)))
       \<and> (\<forall>st face. \<not> isValidFaceSize face \<longrightarrow> updateFaceHistory st (Some face) = st)"
proof -
  have h: "faceTrackingHistory fp = keep_last 5 (accepted calls)"
    unfolding fp_def
    using history_after_calls [of new_FaceProcessor "[]" calls]
    by (simp add: new_FaceProcessor_def keep_last_def)
  have v: "\<forall>face \<in> set (faceTrackingHistory fp). isValidFaceSize face"
    using h set_keep_last [of 5 "accepted calls"] accepted_valid by auto
  have l: "lastKnownFacePosition fp =
             (if accepted calls = [] then None else Some (last (accepted calls)))"
    unfolding fp_def using last_known_after_calls [of new_FaceProcessor calls]
    by (simp add: new_FaceProcessor_def)
  show ?thesis
    using h v l length_keep_last [of 5 "accepted calls"] updateFaceHistory_rejects
    by (auto simp: isValidFaceSize_def minFaceSize_def maxFaceSize_def)
qed

theorem history_invariant_witness:
  "faceTrackingHistory (foldl updateFaceHistory new_FaceProcessor example_calls)
     = [sized 40 41, sized 50 51, sized 60 61, sized 70 71, sized 100 100]
   \<and> isValidFaceSize (sized 40 41)
   \<and> lastKnownFacePosition (foldl updateFaceHistory new_FaceProcessor example_calls)
     = Some (sized 100 100)
   \<and> \<not> isValidFaceSize (sized 29 50)
   \<and> updateFaceHistory new_FaceProcessor (Some (sized 29 50)) = new_FaceProcessor"
proof -
  have acc: "accepted example_calls =
      [sized 30 30, sized 40 41, sized 50 51, sized 60 61, sized 70 71, sized 100 100]"
    by (simp add: example_calls_def isValidFaceSize_def minFaceSize_def maxFaceSize_def sized_def)
  have bad: "\<not> isValidFaceSize (sized 29 50)"
    by (simp add: isValidFaceSize_def minFaceSize_def sized_def)
  have good: "isValidFaceSize (sized 40 41)"
    by (simp add: isValidFaceSize_def minFaceSize_def maxFaceSize_def sized_def)
  show ?thesis
    using history_invariant [of example_calls] bad good
    by (simp add: acc keep_last_def)
qed

section \<open>The detector's bounding box\<close>

lemma final_bounds_fields:
  "box_x (final_bounds b) = box_x b" "box_y (final_bounds b) = box_y b"
  "box_width (final_bounds b) = min (box_width b) (imageProcessor_width - box_x b)"
  "box_height (final_bounds b) = min (box_height b) (imageProcessor_height - box_y b)"
  by (auto simp: final_bounds_def Let_def)

text \<open>
  What does hold of every box taken from the detector: it starts at non-negative
  coordinates and ends inside the frame, and its width (height) is positive where it
  starts left of the right edge (above the bottom edge).
\<close>

lemma accepted_detection_bounds:
  assumes "accepted_detection face = Some b"
  shows "0 \<le> box_x b" "0 \<le> box_y b"
    "box_x b + box_width b \<le> imageProcessor_width"
    "box_y b + box_height b \<le> imageProcessor_height"
    "box_x b < imageProcessor_width \<Longrightarrow> 0 < box_width b"
    "box_y b < imageProcessor_height \<Longrightarrow> 0 < box_height b"
  using assms
  by (cases face; auto simp: accepted_detection_def final_bounds_fields split: if_splits)+

text \<open>
  C3. A detector result in the \<^verbatim>\<open>box\<close> shape with \<^verbatim>\<open>xMin = 159.6\<close>,
  \<^verbatim>\<open>yMin = 10\<close>, \<^verbatim>\<open>width = 40\<close>, \<^verbatim>\<open>height = 40\<close> in the 160 x 120 frame:
  the box passes the test for positive width and height, the final bounds validation then
  sets its width to 0, and this box is the one used as the detection.
\<close>

theorem detection_at_right_edge:
  "accepted_detection (BoxForm (1596 / 10) 10 40 40)
     = Some \<lparr>box_x = 160, box_y = 10, box_width = 0, box_height = 40\<rparr>"
  by (simp add: accepted_detection_def final_bounds_def js_round_def
      imageProcessor_width_def imageProcessor_height_def)

section \<open>Capturing while a capture is being processed\<close>

text \<open>
  C9, as the claim states it, fails: in a state where \<^verbatim>\<open>isCapturing\<close> is true and
  frame 1 awaits processing, a capture request is carried out and replaces the captured
  frame by frame 2.
\<close>

theorem capture_not_rejected:
  "isCapturing busy_app \<and> capturedImage busy_app = Some 1
   \<and> capturedImage (captureImage (Captured 2) busy_app) = Some 2
   \<and> pendingTimeouts (captureImage (Captured 2) busy_app) = 2"
  by (simp add: busy_app_def captureImage_def)

text \<open>
  C9, amended. \<^verbatim>\<open>captureImage\<close> does not consult \<^verbatim>\<open>isCapturing\<close>: whenever the
  video is ready, a capture request replaces the captured frame, sets
  \<^verbatim>\<open>isCapturing\<close> and schedules one more processing callback, and when the video is
  not ready it changes nothing. \<^verbatim>\<open>isCapturing\<close> guards two other steps: the periodic
  tracking tick changes nothing while it is true, and the scheduled callback runs
  \<^verbatim>\<open>processImages\<close> (on the frame captured last) only if it is still true, and clears
  it.
\<close>

theorem capturing_guards:
  "(videoReady s \<longrightarrow>
      captureImage (Captured frame) s =
        s\<lparr>capturedImage := Some frame, isCapturing := True,
          pendingTimeouts := pendingTimeouts s + 1\<rparr>)
   \<and> (\<not> videoReady s \<longrightarrow> captureImage outcome s = s)
   \<and> (isCapturing s \<longrightarrow> trackingTick s = s)
   \<and> (isCapturing s \<and> capturedImage s = Some f \<longrightarrow>
        processed (captureTimeout s) = processed s @ [f] \<and> \<not> isCapturing (captureTimeout s))
   \<and> (\<not> isCapturing s \<longrightarrow>
        processed (captureTimeout s) = processed s \<and> \<not> isCapturing (captureTimeout s))"
  by (simp add: captureImage_def trackingTick_def captureTimeout_def Let_def)

theorem capturing_guards_witness:
  "videoReady busy_app \<and> isCapturing busy_app \<and> capturedImage busy_app = Some 1
   \<and> captureImage (Captured 2) busy_app =
        busy_app\<lparr>capturedImage := Some 2, isCapturing := True, pendingTimeouts := 2\<rparr>
   \<and> trackingTick busy_app = busy_app
   \<and> processed (captureTimeout busy_app) = [1]
   \<and> \<not> isCapturing (captureTimeout busy_app)
   \<and> \<not> videoReady (busy_app\<lparr>videoReady := False\<rparr>)
   \<and> captureImage (Captured 2) (busy_app\<lparr>videoReady := False\<rparr>) = busy_app\<lparr>videoReady := False\<rparr>
   \<and> \<not> isCapturing (captureTimeout busy_app)
   \<and> processed (captureTimeout (captureTimeout busy_app)) = processed (captureTimeout busy_app)"
  using capturing_guards [of busy_app 2 "Captured 2" 1]
    capturing_guards [of "busy_app\<lparr>videoReady := False\<rparr>" 2 "Captured 2" 1]
    capturing_guards [of "captureTimeout busy_app" 2 "Captured 2" 1]
  by (simp add: busy_app_def)

section \<open>The per-pixel loop and the grayscale transform\<close>

lemma pixel_loop_step:
  "i < length src \<Longrightarrow>
   pixel_loop f src i out =
     pixel_loop f src (i + 4)
       (out[i := to_byte (fst (f (src ! i) (src ! (i + 1)) (src ! (i + 2)))),
            i + 1 := to_byte (fst (snd (f (src ! i) (src ! (i + 1)) (src ! (i + 2))))),
            i + 2 := to_byte (snd (snd (f (src ! i) (src ! (i + 1)) (src ! (i + 2))))),
            i + 3 := 255])"
  by (subst pixel_loop.simps) (simp add: Let_def)

lemma pixel_loop_stop: "\<not> i < length src \<Longrightarrow> pixel_loop f src i out = out"
  by (subst pixel_loop.simps) simp

lemma pixel_loop_length: "length (pixel_loop f src i out) = length out"
proof (induction "length src - i" arbitrary: i out rule: less_induct)
  case less
  show ?case
  proof (cases "i < length src")
    case True
    then have "length src - (i + 4) < length src - i" by arith
    then show ?thesis
      using less [of "i + 4"] by (simp add: pixel_loop_step [OF True])
  next
    case False
    then show ?thesis by (simp add: pixel_loop_stop)
  qed
qed

lemma pixel_loop_before: "j < i \<Longrightarrow> pixel_loop f src i out ! j = out ! j"
proof (induction "length src - i" arbitrary: i out rule: less_induct)
  case less
  show ?case
  proof (cases "i < length src")
    case True
    then have "length src - (i + 4) < length src - i" by arith
    then show ?thesis
      using less(1) [of "i + 4"] less(2) by (simp add: pixel_loop_step [OF True])
  next
    case False
    then show ?thesis by (simp add: pixel_loop_stop)
  qed
qed

lemma pixel_loop_pixel:
  assumes "i + 4 * k + 3 < length src" and "length out = length src"
  shows "pixel_loop f src i out ! (i + 4 * k) =
           to_byte (fst (f (src ! (i + 4 * k)) (src ! (i + 4 * k + 1)) (src ! (i + 4 * k + 2))))
       \<and> pixel_loop f src i out ! (i + 4 * k + 1) =
           to_byte (fst (snd (f (src ! (i + 4 * k)) (src ! (i + 4 * k + 1)) (src ! (i + 4 * k + 2)))))
       \<and> pixel_loop f src i out ! (i + 4 * k + 2) =
           to_byte (snd (snd (f (src ! (i + 4 * k)) (src ! (i + 4 * k + 1)) (src ! (i + 4 * k + 2)))))
       \<and> pixel_loop f src i out ! (i + 4 * k + 3) = 255"
  using assms
proof (induction k arbitrary: i out)
  case 0
  then have lt: "i < length src" by simp
  show ?case
    using 0 by (simp add: pixel_loop_step [OF lt] pixel_loop_before)
next
  case (Suc k)
  then have lt: "i < length src" by simp
  have e: "i + 4 + 4 * k = i + 4 * Suc k" by simp
  show ?case
    using Suc.IH [of "i + 4"
        "out[i := to_byte (fst (f (src ! i) (src ! (i + 1)) (src ! (i + 2)))),
            i + 1 := to_byte (fst (snd (f (src ! i) (src ! (i + 1)) (src ! (i + 2))))),
            i + 2 := to_byte (snd (snd (f (src ! i) (src ! (i + 1)) (src ! (i + 2))))),
            i + 3 := 255]"] Suc.prems
    unfolding e by (simp add: pixel_loop_step [OF lt])
qed

lemma createGraphics_succeeds:
  "creation_succeeds g \<Longrightarrow>
   createGraphics w h g =
     (Inr (next_ref g),
      g\<lparr>store := (store g)(next_ref g \<mapsto> blank w h),
        next_ref := Suc (next_ref g), failing := tl (failing g)\<rparr>)"
  by (auto simp: createGraphics_def creation_succeeds_def split: list.splits bool.splits)

lemma createGraphics_fails:
  "\<not> creation_succeeds g \<Longrightarrow>
   createGraphics w h g = (Inl GraphicsError, g\<lparr>failing := tl (failing g)\<rparr>)"
  by (auto simp: createGraphics_def creation_succeeds_def split: list.splits bool.splits)

lemma scaled_channel_close:
  fixes c x :: real
  assumes "0 \<le> c" "c \<le> 1" "0 \<le> x" "x \<le> 255"
  shows "\<bar>double (double c * x) - c * x\<bar> \<le> 766 * eps"
proof -
  have "\<bar>c - c\<bar> \<le> 0" "\<bar>c\<bar> \<le> 1" using assms by simp_all
  from double_close [OF this] have a: "\<bar>double c - c\<bar> \<le> 2 * eps" by simp
  have "\<bar>x - x\<bar> \<le> 0" "\<bar>c\<bar> \<le> 1" "\<bar>x\<bar> \<le> 255" using assms by simp_all
  from mult_close [OF a this]
  have b: "\<bar>double c * x - c * x\<bar> \<le> 510 * eps" by simp
  have "c * x \<le> 1 * 255" using assms by (intro mult_mono) simp_all
  moreover have "0 \<le> c * x" using assms by simp
  ultimately have m: "\<bar>c * x\<bar> \<le> 255" by simp
  have "510 * eps \<le> 1" using eps_bounds by linarith
  from double_close [OF b m this] show ?thesis by simp
qed

lemma brightened_gray_close:
  assumes "0 \<le> r" "r \<le> 255" "0 \<le> g" "g \<le> 255" "0 \<le> b" "b \<le> 255"
  shows "\<exists>x. brightened_gray r g b = min 255 x
           \<and> \<bar>x - 1.2 * (0.299 * r + 0.587 * g + 0.114 * b)\<bar> \<le> 1 / 10 ^ 9"
proof -
  define p1 where "p1 = double (double 0.299 * r)"
  define p2 where "p2 = double (double 0.587 * g)"
  define p3 where "p3 = double (double 0.114 * b)"
  define s1 where "s1 = double (p1 + p2)"
  define gray where "gray = double (s1 + p3)"
  define x where "x = double (gray * double 1.2)"
  define q1 :: real where "q1 = 0.299 * r"
  define q2 :: real where "q2 = 0.587 * g"
  define q3 :: real where "q3 = 0.114 * b"
  have q: "0 \<le> q1" "q1 \<le> 77" "0 \<le> q2" "q2 \<le> 150" "0 \<le> q3" "q3 \<le> 30"
    unfolding q1_def q2_def q3_def using assms by simp_all
  note e = eps_bounds
  have p1: "\<bar>p1 - q1\<bar> \<le> 766 * eps"
    unfolding p1_def q1_def using assms by (intro scaled_channel_close) simp_all
  have p2: "\<bar>p2 - q2\<bar> \<le> 766 * eps"
    unfolding p2_def q2_def using assms by (intro scaled_channel_close) simp_all
  have p3: "\<bar>p3 - q3\<bar> \<le> 766 * eps"
    unfolding p3_def q3_def using assms by (intro scaled_channel_close) simp_all
  have "\<bar>p1 + p2 - (q1 + q2)\<bar> \<le> 1532 * eps" "\<bar>q1 + q2\<bar> \<le> 255" "1532 * eps \<le> 1"
    using p1 p2 q e by linarith+
  from double_close [OF this] have s1: "\<bar>s1 - (q1 + q2)\<bar> \<le> 1788 * eps"
    unfolding s1_def by simp
  have "\<bar>s1 + p3 - (q1 + q2 + q3)\<bar> \<le> 2554 * eps" "\<bar>q1 + q2 + q3\<bar> \<le> 257" "2554 * eps \<le> 1"
    using s1 p3 q e by linarith+
  from double_close [OF this] have gray: "\<bar>gray - (q1 + q2 + q3)\<bar> \<le> 2812 * eps"
    unfolding gray_def by simp
  have "\<bar>(1.2::real) - 1.2\<bar> \<le> 0" "\<bar>1.2::real\<bar> \<le> 2" by simp_all
  from double_close [OF this] have c: "\<bar>double 1.2 - 1.2\<bar> \<le> 3 * eps" by simp
  then have c2: "\<bar>double 1.2\<bar> \<le> 2" using e by linarith
  have "\<bar>q1 + q2 + q3\<bar> \<le> 257" using q by linarith
  from mult_close [OF gray c this c2]
  have m: "\<bar>gray * double 1.2 - (q1 + q2 + q3) * 1.2\<bar> \<le> 6395 * eps" by simp
  have "0 \<le> (q1 + q2 + q3) * 1.2" "(q1 + q2 + q3) * 1.2 \<le> 309" using q by simp_all
  then have "\<bar>(q1 + q2 + q3) * 1.2\<bar> \<le> 309" by simp
  moreover have "6395 * eps \<le> 1" using e by linarith
  ultimately have "\<bar>(q1 + q2 + q3) * 1.2\<bar> \<le> 309" "6395 * eps \<le> 1" by simp_all
  from double_close [OF m this] have "\<bar>x - (q1 + q2 + q3) * 1.2\<bar> \<le> 6705 * eps"
    unfolding x_def by simp
  then have "\<bar>x - 1.2 * (q1 + q2 + q3)\<bar> \<le> 1 / 10 ^ 9" using e by (simp add: mult.commute)
  moreover have "brightened_gray r g b = min 255 x"
    by (simp add: brightened_gray_def Let_def x_def gray_def s1_def p1_def p2_def p3_def)
  ultimately show ?thesis unfolding q1_def q2_def q3_def by blast
qed

lemma tiny: "(1::real) / 10 ^ 9 \<le> 1 / 1000"
  by simp

lemma gray_tinted: "to_byte (brightened_gray 10 20 30) = 22"
proof -
  from brightened_gray_close [of 10 20 30]
  obtain x where x: "brightened_gray 10 20 30 = min 255 x"
    "\<bar>x - 1.2 * (0.299 * 10 + 0.587 * 20 + 0.114 * 30)\<bar> \<le> 1 / 10 ^ 9"
    by auto
  have "1.2 * (0.299 * 10 + 0.587 * 20 + 0.114 * 30) = (2178 / 100 :: real)" by simp
  then have "\<bar>x - 2178 / 100\<bar> \<le> 1 / 1000" using x(2) tiny by linarith
  then have "real_of_int 22 - 1 / 2 < min 255 x" "min 255 x < real_of_int 22 + 1 / 2"
    by linarith+
  from to_byte_between [OF this] show ?thesis unfolding x(1) by simp
qed

lemma gray_white: "to_byte (brightened_gray 255 255 255) = 255"
proof -
  from brightened_gray_close [of 255 255 255]
  obtain x where x: "brightened_gray 255 255 255 = min 255 x"
    "\<bar>x - 1.2 * (0.299 * 255 + 0.587 * 255 + 0.114 * 255)\<bar> \<le> 1 / 10 ^ 9"
    by auto
  have "1.2 * (0.299 * 255 + 0.587 * 255 + 0.114 * 255) = (306 :: real)" by simp
  then have "\<bar>x - 306\<bar> \<le> 1 / 1000" using x(2) tiny by linarith
  then have "255 \<le> x" by linarith
  then have "min 255 x = 255" by simp
  then show ?thesis unfolding x(1) by (simp add: to_byte_def)
qed

text \<open>
  C4, as the claim states it, fails: the output array holds bytes. For the pixel
  (10, 20, 30) the formula gives 21.78, and the three channels stored are 22.
\<close>

theorem grayscale_stores_bytes:
  "map_option pixels (store tinted_pixel_store 0) = Some [10, 20, 30, 255]
   \<and> fst (createGrayscaleWithBrightness 0 tinted_pixel_store) = Inr (Some 1)
   \<and> map_option pixels (store (snd (createGrayscaleWithBrightness 0 tinted_pixel_store)) 1)
       = Some [22, 22, 22, 255]
   \<and> min 255 (1.2 * (0.299 * 10 + 0.587 * 20 + 0.114 * 30)) = (2178 / 100 :: real)"
proof -
  have "(replicate 4 (0::real))[0 := c, Suc 0 := c, Suc (Suc 0) := c, 3 := 255] = [c, c, c, 255]" for c
    by (simp add: eval_nat_numeral)
  then show ?thesis
    by (simp add: tinted_pixel_store_def createGrayscaleWithBrightness_def
        safeCreateGraphics_def createGraphics_def fill_pixels_def blank_def
        pixel_loop.simps Let_def gray_tinted)
qed

text \<open>
  C4, amended. Where the input is a well-formed raster whose pixels load and the output
  can be created, \<^verbatim>\<open>createGrayscaleWithBrightness\<close> returns a new raster of the same
  size in which every pixel has alpha 255 and three equal colour channels: the byte
  stored for the brightened gray level of the input pixel. This byte is a whole number
  from 0 to 255; for input channels from 0 to 255 it differs from
  \<open>min 255 (1.2 * (0.299 R + 0.587 G + 0.114 B))\<close> by at most \<open>1/2 + 10\<^sup>-\<^sup>9\<close>, the rounding
  to a byte and the rounding of the arithmetic, and for the input (255, 255, 255) it is
  255.
\<close>

theorem grayscale_postcondition:
  assumes "store g img = Some src" and "wf_raster src" and "loadable src"
    and "creation_succeeds g"
  shows "\<exists>g' dst.
           createGrayscaleWithBrightness img g = (Inr (Some (next_ref g)), g')
         \<and> store g' (next_ref g) = Some dst
         \<and> img_width dst = img_width src \<and> img_height dst = img_height src
         \<and> wf_raster dst
         \<and> (\<forall>p < img_width src * img_height src.
              case pixel_at src p of (r, gr, b, a) \<Rightarrow>
                (let c = to_byte (brightened_gray r gr b)
                 in pixel_at dst p = (c, c, c, 255)
                  \<and> c \<in> \<int> \<and> 0 \<le> c \<and> c \<le> 255
                  \<and> (0 \<le> r \<and> r \<le> 255 \<and> 0 \<le> gr \<and> gr \<le> 255 \<and> 0 \<le> b \<and> b \<le> 255 \<longrightarrow>
                       \<bar>c - min 255 (1.2 * (0.299 * r + 0.587 * gr + 0.114 * b))\<bar>
                         \<le> 1 / 2 + 1 / 10 ^ 9)
                  \<and> (r = 255 \<and> gr = 255 \<and> b = 255 \<longrightarrow> c = 255)))"
proof -
  let ?f = "\<lambda>r g b. let c = brightened_gray r g b in (c, c, c)"
  let ?w = "img_width src" and ?h = "img_height src"
  let ?P = "pixel_loop ?f (pixels src) 0 (pixels (blank ?w ?h))"
  let ?dst = "(blank ?w ?h)\<lparr>pixels := ?P\<rparr>"
  let ?g1 = "g\<lparr>store := (store g)(next_ref g \<mapsto> blank ?w ?h),
               next_ref := Suc (next_ref g), failing := tl (failing g)\<rparr>"
  let ?g' = "?g1\<lparr>store := (store ?g1)(next_ref g \<mapsto> ?dst)\<rparr>"
  have len: "length (pixels (blank ?w ?h)) = length (pixels src)"
    using assms(2) by (simp add: blank_def wf_raster_def)
  have run: "createGrayscaleWithBrightness img g = (Inr (Some (next_ref g)), ?g')"
    using assms
    by (simp add: createGrayscaleWithBrightness_def safeCreateGraphics_def
        createGraphics_succeeds fill_pixels_def blank_def)
  have px: "pixel_at ?dst p =
              (to_byte (brightened_gray (pixels src ! (4 * p)) (pixels src ! (4 * p + 1)) (pixels src ! (4 * p + 2))),
               to_byte (brightened_gray (pixels src ! (4 * p)) (pixels src ! (4 * p + 1)) (pixels src ! (4 * p + 2))),
               to_byte (brightened_gray (pixels src ! (4 * p)) (pixels src ! (4 * p + 1)) (pixels src ! (4 * p + 2))),
               255)"
    if "p < ?w * ?h" for p
  proof -
    have "0 + 4 * p + 3 < length (pixels src)"
      using that assms(2) by (simp add: wf_raster_def)
    from pixel_loop_pixel [OF this len, of ?f] show ?thesis
      by (simp add: pixel_at_def Let_def)
  qed
  have wf: "wf_raster ?dst"
    using len assms(2) by (simp add: wf_raster_def pixel_loop_length blank_def)
  have near: "\<bar>to_byte (brightened_gray r gr b)
                - min 255 (1.2 * (0.299 * r + 0.587 * gr + 0.114 * b))\<bar> \<le> 1 / 2 + 1 / 10 ^ 9"
    if "0 \<le> r" "r \<le> 255" "0 \<le> gr" "gr \<le> 255" "0 \<le> b" "b \<le> 255" for r gr b :: real
  proof -
    from brightened_gray_close [OF that]
    obtain x where x: "brightened_gray r gr b = min 255 x"
      "\<bar>x - 1.2 * (0.299 * r + 0.587 * gr + 0.114 * b)\<bar> \<le> 1 / 10 ^ 9"
      by auto
    let ?y = "1.2 * (0.299 * r + 0.587 * gr + 0.114 * b)"
    have y: "0 \<le> ?y" using that by simp
    have m: "\<bar>min 255 x - min 255 ?y\<bar> \<le> 1 / 10 ^ 9" using x(2) by linarith
    show ?thesis
    proof (cases "0 \<le> x")
      case True
      then have "\<bar>to_byte (min 255 x) - min 255 x\<bar> \<le> 1 / 2"
        by (intro to_byte_near) simp_all
      then show ?thesis unfolding x(1) using m by linarith
    next
      case False
      then have z: "to_byte (min 255 x) = 0" by (simp add: to_byte_def)
      have "\<bar>min 255 x\<bar> \<le> 1 / 10 ^ 9" using False m y by linarith
      then show ?thesis unfolding x(1) z using m tiny by linarith
    qed
  qed
  have post: "case pixel_at src p of (r, gr, b, a) \<Rightarrow>
                (let c = to_byte (brightened_gray r gr b)
                 in pixel_at ?dst p = (c, c, c, 255)
                  \<and> c \<in> \<int> \<and> 0 \<le> c \<and> c \<le> 255
                  \<and> (0 \<le> r \<and> r \<le> 255 \<and> 0 \<le> gr \<and> gr \<le> 255 \<and> 0 \<le> b \<and> b \<le> 255 \<longrightarrow>
                       \<bar>c - min 255 (1.2 * (0.299 * r + 0.587 * gr + 0.114 * b))\<bar>
                         \<le> 1 / 2 + 1 / 10 ^ 9)
                  \<and> (r = 255 \<and> gr = 255 \<and> b = 255 \<longrightarrow> c = 255))"
    if "p < ?w * ?h" for p
  proof -
    define r where "r = pixels src ! (4 * p)"
    define gr where "gr = pixels src ! (4 * p + 1)"
    define b where "b = pixels src ! (4 * p + 2)"
    define c where "c = to_byte (brightened_gray r gr b)"
    have pa: "pixel_at src p = (r, gr, b, pixels src ! (4 * p + 3))"
      by (simp add: pixel_at_def r_def gr_def b_def)
    have 1: "pixel_at ?dst p = (c, c, c, 255)"
      using px [OF that] unfolding c_def r_def gr_def b_def Let_def .
    have 2: "c \<in> \<int>" unfolding c_def by (rule to_byte_int)
    have 3: "0 \<le> c" and 4: "c \<le> 255" using to_byte_range [of "brightened_gray r gr b"]
      unfolding c_def by simp_all
    have 5: "0 \<le> r \<and> r \<le> 255 \<and> 0 \<le> gr \<and> gr \<le> 255 \<and> 0 \<le> b \<and> b \<le> 255 \<longrightarrow>
               \<bar>c - min 255 (1.2 * (0.299 * r + 0.587 * gr + 0.114 * b))\<bar> \<le> 1 / 2 + 1 / 10 ^ 9"
      unfolding c_def using near [of r gr b] by blast
    have 6: "r = 255 \<and> gr = 255 \<and> b = 255 \<longrightarrow> c = 255"
      unfolding c_def using gray_white by blast
    show ?thesis
      unfolding pa prod.case Let_def c_def [symmetric] by (intro conjI 1 [unfolded Let_def] 2 3 4 5 6)
  qed
  have st: "store ?g' (next_ref g) = Some ?dst" by simp
  have sw: "img_width ?dst = ?w" and sh: "img_height ?dst = ?h" by (simp_all add: blank_def)
  show ?thesis
    by (intro exI [of _ ?g'] exI [of _ ?dst] conjI run st sw sh wf allI impI post)
qed

theorem grayscale_postcondition_witness:
  "\<exists>g' dst. createGrayscaleWithBrightness 0 two_pixel_store = (Inr (Some 1), g')
     \<and> store g' 1 = Some dst
     \<and> pixel_at dst 0 = (22, 22, 22, 255) \<and> pixel_at dst 1 = (255, 255, 255, 255)
     \<and> \<bar>(22::real) - min 255 (1.2 * (0.299 * 10 + 0.587 * 20 + 0.114 * 30))\<bar> \<le> 1 / 2 + 1 / 10 ^ 9"
proof -
  let ?src = "\<lparr>img_width = 2, img_height = 1, pixels = [10, 20, 30, 255, 255, 255, 255, 255],
               loadable = True\<rparr>"
  have s: "store two_pixel_store 0 = Some ?src"
    by (simp add: two_pixel_store_def)
  have w: "wf_raster ?src" by (simp add: wf_raster_def)
  have c: "creation_succeeds two_pixel_store"
    by (simp add: creation_succeeds_def two_pixel_store_def)
  have n: "next_ref two_pixel_store = 1" by (simp add: two_pixel_store_def)
  have p0: "pixel_at ?src 0 = (10, 20, 30, 255)" and p1: "pixel_at ?src 1 = (255, 255, 255, 255)"
    by (simp_all add: pixel_at_def)
  have l: "loadable ?src" by simp
  from grayscale_postcondition [OF s w l c]
  obtain g' dst where r: "createGrayscaleWithBrightness 0 two_pixel_store
                            = (Inr (Some (next_ref two_pixel_store)), g')"
    "store g' (next_ref two_pixel_store) = Some dst"
    and all: "\<forall>p < img_width ?src * img_height ?src. case pixel_at ?src p of (r, gr, b, a) \<Rightarrow>
                (let c = to_byte (brightened_gray r gr b)
                 in pixel_at dst p = (c, c, c, 255)
                  \<and> c \<in> \<int> \<and> 0 \<le> c \<and> c \<le> 255
                  \<and> (0 \<le> r \<and> r \<le> 255 \<and> 0 \<le> gr \<and> gr \<le> 255 \<and> 0 \<le> b \<and> b \<le> 255 \<longrightarrow>
                       \<bar>c - min 255 (1.2 * (0.299 * r + 0.587 * gr + 0.114 * b))\<bar>
                         \<le> 1 / 2 + 1 / 10 ^ 9)
                  \<and> (r = 255 \<and> gr = 255 \<and> b = 255 \<longrightarrow> c = 255))"
    by blast
  have i0: "0 < img_width ?src * img_height ?src" and i1: "1 < img_width ?src * img_height ?src"
    by simp_all
  from all [rule_format, OF i0] have a0: "pixel_at dst 0 = (22, 22, 22, 255)"
    "\<bar>(22::real) - min 255 (1.2 * (0.299 * 10 + 0.587 * 20 + 0.114 * 30))\<bar> \<le> 1 / 2 + 1 / 10 ^ 9"
    unfolding p0 prod.case Let_def gray_tinted by simp_all
  from all [rule_format, OF i1] have a1: "pixel_at dst 1 = (255, 255, 255, 255)"
    unfolding p1 prod.case Let_def gray_white by simp
  show ?thesis using r a0 a1 unfolding n by blast
qed

section \<open>Pixelation of a uniform gray raster\<close>


lemma stepped_below: "k \<in> set (stepped i n step) \<Longrightarrow> k < n"
proof (induction i n step rule: stepped.induct)
  case (1 i n step)
  then show ?case
    by (subst (asm) stepped.simps) (auto split: if_splits)
qed















text \<open>
  The average of a block is rounded: for the raster of two by two pixels whose red
  channels are 0, 0, 0 and 255 the average is 63.75, and every pixel of the output is
  (64, 64, 64, 255).
\<close>

lemma pixelate_averages_block:
  "fst (pixelateImage (Some 0) quad_store) = Inr (Some 1)
   \<and> map_option pixels (store (snd (pixelateImage (Some 0) quad_store)) 1)
       = Some [64, 64, 64, 255, 64, 64, 64, 255, 64, 64, 64, 255, 64, 64, 64, 255]"
proof -
  have d0: "double 255 = 255" using double_of_int [of 255] by simp
  have d1: "double (255 / 4) = 255 / 4" using double_exact [of 255 "- 2"] by (simp add: power_int_minus)
  have r: "js_round (255 / 4) = 64" by (simp add: js_round_def)
  have b: "to_byte 64 = 64" using to_byte_of_int [of 64] by simp
  have idx: "block_indices 2 2 0 0 = [0, 4, 8, 12]"
    by (simp add: block_indices_def blockSize_def upt_rec)
  have st: "stepped 0 2 blockSize = [0]"
    by (simp add: stepped.simps blockSize_def)
  have tot: "foldl (\<lambda>total idx. double (total
                 + [0, 0, 0, 255, 0, 0, 0, 255, 0, 0, 0, 255, 255, 255, 255, 255] ! idx))
               0 [0, 4, 8, 12] = 255"
    by (simp add: double_zero d0)
  have rep: "replicate 16 (0::real) = [0, 0, 0, 0, 0, 0, 0, 0, 0, 0, 0, 0, 0, 0, 0, 0]"
    by (simp add: eval_nat_numeral)
  have p: "paint 64 [a0, a1, a2, a3, a4, a5, a6, a7, a8, a9, a10, a11, a12, a13, a14, a15] 0
             = [64, 64, 64, 255, a4, a5, a6, a7, a8, a9, a10, a11, a12, a13, a14, a15]"
    "paint 64 [a0, a1, a2, a3, a4, a5, a6, a7, a8, a9, a10, a11, a12, a13, a14, a15] 4
       = [a0, a1, a2, a3, 64, 64, 64, 255, a8, a9, a10, a11, a12, a13, a14, a15]"
    "paint 64 [a0, a1, a2, a3, a4, a5, a6, a7, a8, a9, a10, a11, a12, a13, a14, a15] 8
       = [a0, a1, a2, a3, a4, a5, a6, a7, 64, 64, 64, 255, a12, a13, a14, a15]"
    "paint 64 [a0, a1, a2, a3, a4, a5, a6, a7, a8, a9, a10, a11, a12, a13, a14, a15] 12
       = [a0, a1, a2, a3, a4, a5, a6, a7, a8, a9, a10, a11, 64, 64, 64, 255]"
    for a0 a1 a2 a3 a4 a5 a6 a7 a8 a9 a10 a11 a12 a13 a14 a15
    unfolding paint_def b by (simp_all add: eval_nat_numeral)
  have pnt: "foldl (paint 64) (replicate 16 0) [0, 4, 8, 12]
               = [64, 64, 64, 255, 64, 64, 64, 255, 64, 64, 64, 255, 64, 64, 64, 255]"
    unfolding rep foldl_Cons foldl_Nil p ..
  have avg: "real_of_int (js_round (double (255 / real (length [0::nat, 4, 8, 12])))) = 64"
    by (simp add: d1 r)
  have blk: "pixelate_block [0, 0, 0, 255, 0, 0, 0, 255, 0, 0, 0, 255, 255, 255, 255, 255] 2 2
               (replicate 16 0) (0, 0)
             = [64, 64, 64, 255, 64, 64, 64, 255, 64, 64, 64, 255, 64, 64, 64, 255]"
    unfolding pixelate_block_def prod.case idx Let_def tot avg by (rule pnt)
  show ?thesis
    by (simp add: quad_store_def pixelateImage_def safeCreateGraphics_def createGraphics_def
        blank_def pixelate_loop_def st blk)
qed



section \<open>The transforms leave existing rasters alone\<close>

lemma preserves_refl: "preserves g g"
  by (simp add: preserves_def)

lemma preserves_trans: "preserves g g1 \<Longrightarrow> preserves g1 g2 \<Longrightarrow> preserves g g2"
  by (auto simp: preserves_def)

lemma newly_created_later:
  "newly_created g g1 output \<Longrightarrow> preserves g1 g2 \<Longrightarrow> newly_created g g2 output"
  by (auto simp: newly_created_def preserves_def)

lemma newly_created_earlier:
  "preserves g g1 \<Longrightarrow> newly_created g1 g2 output \<Longrightarrow> newly_created g g2 output"
  by (auto simp: newly_created_def preserves_def)

lemma wf_graphicsD: "wf_graphics g \<Longrightarrow> store g r = Some y \<Longrightarrow> r < next_ref g"
  by (simp add: wf_graphics_def)

lemma wf_graphics_fresh: "wf_graphics g \<Longrightarrow> store g (next_ref g) = None"
  unfolding wf_graphics_def by (meson less_irrefl)

lemma wf_graphics_update:
  assumes "wf_graphics g" and "r \<le> next_ref g"
  shows "wf_graphics (g\<lparr>store := (store g)(r \<mapsto> img), next_ref := Suc (next_ref g),
                       failing := fs\<rparr>)"
  using assms unfolding wf_graphics_def by (auto simp: less_Suc_eq_le)

lemma wf_graphics_overwrite:
  assumes "wf_graphics g" and "store g r \<noteq> None"
  shows "wf_graphics (g\<lparr>store := (store g)(r \<mapsto> img)\<rparr>)"
  using assms unfolding wf_graphics_def by auto

lemma createGraphics_frame:
  assumes "wf_graphics g" and "createGraphics w h g = (res, g')"
  shows "wf_graphics g' \<and> preserves g g'
       \<and> (\<forall>outp. res = Inr outp \<longrightarrow>
             creation_succeeds g \<and> newly_created g g' outp \<and> store g' outp = Some (blank w h))
       \<and> (\<forall>e. res = Inl e \<longrightarrow> \<not> creation_succeeds g \<and> store g' = store g)"
proof (cases "creation_succeeds g")
  case True
  from createGraphics_succeeds [OF True, of w h] assms(2)
  have r: "res = Inr (next_ref g)"
    and g': "g' = g\<lparr>store := (store g)(next_ref g \<mapsto> blank w h),
                   next_ref := Suc (next_ref g), failing := tl (failing g)\<rparr>"
    by simp_all
  have "wf_graphics g'" unfolding g' using assms(1) by (intro wf_graphics_update) simp_all
  moreover have "preserves g g'"
    using wf_graphics_fresh [OF assms(1)] by (auto simp: g' preserves_def)
  moreover have "newly_created g g' (next_ref g)"
    using wf_graphics_fresh [OF assms(1)] by (simp add: g' newly_created_def)
  ultimately show ?thesis using r True by (simp add: g')
next
  case False
  from createGraphics_fails [OF False, of w h] assms(2)
  have r: "res = Inl GraphicsError" and g': "g' = g\<lparr>failing := tl (failing g)\<rparr>"
    by simp_all
  have "wf_graphics g'" using assms(1) by (simp add: g' wf_graphics_def)
  moreover have "preserves g g'" by (simp add: g' preserves_def)
  ultimately show ?thesis using r False by (simp add: g')
qed

lemma safeCreateGraphics_frame:
  assumes "wf_graphics g" and "safeCreateGraphics w h g = (res, g')"
  shows "wf_graphics g' \<and> preserves g g'
       \<and> (\<forall>outp. res = Some outp \<longrightarrow>
             creation_succeeds g \<and> newly_created g g' outp \<and> store g' outp = Some (blank w h))
       \<and> (res = None \<longrightarrow> \<not> creation_succeeds g \<and> store g' = store g)"
proof -
  obtain r g1 where c: "createGraphics w h g = (r, g1)" by (cases "createGraphics w h g")
  from createGraphics_frame [OF assms(1) c] c assms(2)
  show ?thesis
    by (cases r) (auto simp: safeCreateGraphics_def)
qed

lemma fill_pixels_frame:
  assumes "fill_pixels f src outp g = (res, g')"
  shows "(\<forall>r. r \<noteq> outp \<longrightarrow> store g' r = store g r)
       \<and> (store g outp \<noteq> None \<longrightarrow> store g' outp \<noteq> None)
       \<and> (wf_graphics g \<longrightarrow> wf_graphics g')
       \<and> (\<forall>out. res = Inr (Some out) \<longrightarrow> out = outp)
       \<and> res \<noteq> Inr None"
proof (cases "store g outp")
  case None
  then show ?thesis using assms by (auto simp: fill_pixels_def)
next
  case (Some out)
  then show ?thesis
    using assms wf_graphics_overwrite [of g outp]
    by (auto simp: fill_pixels_def split: if_splits)
qed

lemma fill_new_frame:
  assumes "wf_graphics g1" and "preserves g g1" and "newly_created g g1 outp"
    and "fill_pixels f src outp g1 = (res, g')"
  shows "wf_graphics g' \<and> preserves g g' \<and> res \<noteq> Inr None
       \<and> (\<forall>out. res = Inr (Some out) \<longrightarrow> newly_created g g' out)"
proof -
  note fr = fill_pixels_frame [OF assms(4)]
  have "store g' r = store g r" if "store g r \<noteq> None" for r
  proof -
    have "r \<noteq> outp" using that assms(3) by (auto simp: newly_created_def)
    then have "store g' r = store g1 r" using fr by simp
    then show ?thesis using that assms(2) by (simp add: preserves_def)
  qed
  then have p: "preserves g g'" by (simp add: preserves_def)
  have "newly_created g g' outp"
    using assms(3) fr by (simp add: newly_created_def)
  then show ?thesis using p fr assms(1) by auto
qed

lemma create_and_fill_frame:
  assumes "wf_graphics g" and "create_and_fill f img g = (res, g')"
  shows "wf_graphics g' \<and> preserves g g' \<and> res \<noteq> Inr None
       \<and> (\<forall>out. res = Inr (Some out) \<longrightarrow> newly_created g g' out)"
proof (cases "store g img")
  case None
  then show ?thesis using assms by (auto simp: create_and_fill_def preserves_refl)
next
  case (Some src)
  obtain r g1 where c: "createGraphics (img_width src) (img_height src) g = (r, g1)"
    by (cases "createGraphics (img_width src) (img_height src) g")
  note fr = createGraphics_frame [OF assms(1) c]
  show ?thesis
  proof (cases r)
    case (Inl e)
    then show ?thesis using assms(2) Some c fr by (auto simp: create_and_fill_def)
  next
    case (Inr outp)
    then have "fill_pixels f src outp g1 = (res, g')"
      using assms(2) Some c by (simp add: create_and_fill_def)
    from fill_new_frame [OF _ _ _ this, of g] fr Inr show ?thesis by simp
  qed
qed

lemma grayscale_frame:
  assumes "wf_graphics g" and "createGrayscaleWithBrightness img g = (res, g')"
  shows "wf_graphics g' \<and> preserves g g'
       \<and> (\<forall>out. res = Inr (Some out) \<longrightarrow> newly_created g g' out)
       \<and> (res = Inr None \<longrightarrow> \<not> creation_succeeds g)"
proof (cases "store g img")
  case None
  then show ?thesis using assms by (auto simp: createGrayscaleWithBrightness_def preserves_refl)
next
  case (Some src)
  obtain r g1 where c: "safeCreateGraphics (img_width src) (img_height src) g = (r, g1)"
    by (cases "safeCreateGraphics (img_width src) (img_height src) g")
  note fr = safeCreateGraphics_frame [OF assms(1) c]
  show ?thesis
  proof (cases r)
    case None
    then show ?thesis using assms(2) Some c fr
      by (auto simp: createGrayscaleWithBrightness_def)
  next
    case (Some outp)
    then have "fill_pixels (\<lambda>r g b. let c = brightened_gray r g b in (c, c, c)) src outp g1
                 = (res, g')"
      using assms(2) \<open>store g img = Some src\<close> c by (simp add: createGrayscaleWithBrightness_def)
    from fill_new_frame [OF _ _ _ this, of g] fr Some show ?thesis by simp
  qed
qed

lemma pixelate_frame:
  assumes "wf_graphics g" and "pixelateImage img g = (res, g')"
  shows "wf_graphics g' \<and> preserves g g'
       \<and> (\<forall>out. res = Inr (Some out) \<longrightarrow>
             newly_created g g' out \<or> (img = Some out \<and> \<not> creation_succeeds g))"
proof (cases img)
  case None
  then show ?thesis using assms by (auto simp: pixelateImage_def preserves_refl)
next
  case (Some i)
  show ?thesis
  proof (cases "store g i")
    case None
    then show ?thesis using assms Some by (auto simp: pixelateImage_def preserves_refl)
  next
    case src: (Some src)
    obtain r g1 where c: "safeCreateGraphics (img_width src) (img_height src) g = (r, g1)"
      by (cases "safeCreateGraphics (img_width src) (img_height src) g")
    note fr = safeCreateGraphics_frame [OF assms(1) c]
    show ?thesis
    proof (cases r)
      case None
      then show ?thesis using assms(2) Some src c fr by (auto simp: pixelateImage_def)
    next
      case outp: (Some outp)
      then have new: "newly_created g g1 outp" and b: "store g1 outp = Some (blank (img_width src) (img_height src))"
        and wf1: "wf_graphics g1" and p1: "preserves g g1"
        using fr by simp_all
      show ?thesis
      proof (cases "loadable src")
        case False
        then show ?thesis
          using assms(2) Some src c outp b wf1 p1 by (auto simp: pixelateImage_def blank_def)
      next
        case True
        let ?dst = "(blank (img_width src) (img_height src))\<lparr>pixels :=
            pixelate_loop (pixels src) (img_width src) (img_height src)
              (pixels (blank (img_width src) (img_height src)))\<rparr>"
        have g': "g' = g1\<lparr>store := (store g1)(outp \<mapsto> ?dst)\<rparr>" and r: "res = Inr (Some outp)"
          using assms(2) Some src c outp b True by (auto simp: pixelateImage_def blank_def)
        have "wf_graphics g'" unfolding g' using wf1 b by (intro wf_graphics_overwrite) simp_all
        moreover have "preserves g g'"
          using p1 new by (auto simp: g' preserves_def newly_created_def)
        moreover have "newly_created g g' outp"
          using new by (simp add: g' newly_created_def)
        ultimately show ?thesis using r by simp
      qed
    qed
  qed
qed

lemma blur_frame:
  assumes "wf_graphics g" and "blurImage blur img radius g = (res, g')"
  shows "wf_graphics g' \<and> preserves g g'
       \<and> (\<forall>out. res = Inr (Some out) \<longrightarrow>
             newly_created g g' out \<or> (out = img \<and> \<not> creation_succeeds g))"
proof (cases "store g img")
  case None
  then show ?thesis using assms by (auto simp: blurImage_def preserves_refl)
next
  case src: (Some src)
  obtain r g1 where c: "safeCreateGraphics (img_width src) (img_height src) g = (r, g1)"
    by (cases "safeCreateGraphics (img_width src) (img_height src) g")
  note fr = safeCreateGraphics_frame [OF assms(1) c]
  show ?thesis
  proof (cases r)
    case None
    then show ?thesis using assms(2) src c fr by (auto simp: blurImage_def)
  next
    case outp: (Some outp)
    then have new: "newly_created g g1 outp" and b: "store g1 outp = Some (blank (img_width src) (img_height src))"
      and wf1: "wf_graphics g1" and p1: "preserves g g1"
      using fr by simp_all
    let ?dst = "blur radius ((blank (img_width src) (img_height src))\<lparr>pixels := pixels src\<rparr>)"
    have g': "g' = g1\<lparr>store := (store g1)(outp \<mapsto> ?dst)\<rparr>" and r: "res = Inr (Some outp)"
      using assms(2) src c outp b by (auto simp: blurImage_def)
    have "wf_graphics g'" unfolding g' using wf1 b by (intro wf_graphics_overwrite) simp_all
    moreover have "preserves g g'"
      using p1 new by (auto simp: g' preserves_def newly_created_def)
    moreover have "newly_created g g' outp"
      using new by (simp add: g' newly_created_def)
    ultimately show ?thesis using r by simp
  qed
qed

lemma extractColorChannels_frame:
  assumes "wf_graphics g" and "extractColorChannels img g = (res, g')"
  shows "wf_graphics g' \<and> preserves g g'
       \<and> (\<forall>r gr b. res = Inr (r, gr, b) \<longrightarrow>
             newly_created g g' r \<and> newly_created g g' gr \<and> newly_created g g' b)"
proof (cases "store g img")
  case None
  then show ?thesis using assms by (auto simp: extractColorChannels_def preserves_refl)
next
  case (Some src)
  show ?thesis
  proof (cases "loadable src")
    case False
    then show ?thesis using assms Some by (auto simp: extractColorChannels_def preserves_refl)
  next
    case True
    obtain r1 g1 where c1: "create_and_fill (\<lambda>r g b. (r, 0, 0)) img g = (r1, g1)"
      by (cases "create_and_fill (\<lambda>r g b. (r, 0, 0)) img g")
    obtain r2 g2 where c2: "create_and_fill (\<lambda>r g b. (0, g, 0)) img g1 = (r2, g2)"
      by (cases "create_and_fill (\<lambda>r g b. (0, g, 0)) img g1")
    obtain r3 g3 where c3: "create_and_fill (\<lambda>r g b. (0, 0, b)) img g2 = (r3, g3)"
      by (cases "create_and_fill (\<lambda>r g b. (0, 0, b)) img g2")
    note f1 = create_and_fill_frame [OF assms(1) c1]
    then have wf1: "wf_graphics g1" by simp
    note f2 = create_and_fill_frame [OF wf1 c2]
    then have wf2: "wf_graphics g2" by simp
    note f3 = create_and_fill_frame [OF wf2 c3]
    have p2: "preserves g g2" using f1 f2 preserves_trans by blast
    have p3: "preserves g g3" using p2 f3 preserves_trans by blast
    have p13: "preserves g1 g3" using f2 f3 preserves_trans by blast
    have n1: "newly_created g g3 a" if "r1 = Inr (Some a)" for a
      using that f1 p13 newly_created_later by blast
    have n2: "newly_created g g3 a" if "r2 = Inr (Some a)" for a
      using that f1 f2 f3 newly_created_later newly_created_earlier by blast
    have n3: "newly_created g g3 a" if "r3 = Inr (Some a)" for a
      using that p2 f3 newly_created_earlier by blast
    show ?thesis
      using assms(2) Some True c1 c2 c3 f1 f2 f3 p2 p3 n1 n2 n3
      by (auto simp: extractColorChannels_def split: sum.splits option.splits)
  qed
qed

text \<open>
  C6, as the claim states it, fails: where the output cannot be created,
  \<^verbatim>\<open>pixelateImage\<close> returns the input raster itself (reference 0, which exists
  before the call), not a newly created raster.
\<close>

theorem pixelate_returns_input:
  "map_option pixels (store exhausted_store 0) = Some [255, 255, 255, 255]
   \<and> fst (pixelateImage (Some 0) exhausted_store) = Inr (Some 0)
   \<and> store (snd (pixelateImage (Some 0) exhausted_store)) = store exhausted_store"
  by (simp add: exhausted_store_def pixelateImage_def safeCreateGraphics_def createGraphics_def)

text \<open>
  C6, amended. Every transform (grayscale, channel extraction, channel threshold,
  colour-space threshold, HSV and Lab conversion, pixelation, blur) leaves every raster
  that exists before the call, the input among them, with the same pixels after the
  call; whatever it returns is a raster created by the call, except that pixelation and
  blur return the input raster itself where the output cannot be created.
\<close>

theorem transforms_leave_input:
  assumes "wf_graphics g"
  shows "preserves g (snd (createGrayscaleWithBrightness img g))
       \<and> (\<forall>out. fst (createGrayscaleWithBrightness img g) = Inr (Some out) \<longrightarrow>
             newly_created g (snd (createGrayscaleWithBrightness img g)) out)
       \<and> preserves g (snd (extractColorChannels img g))
       \<and> (\<forall>r gr b. fst (extractColorChannels img g) = Inr (r, gr, b) \<longrightarrow>
             newly_created g (snd (extractColorChannels img g)) r
             \<and> newly_created g (snd (extractColorChannels img g)) gr
             \<and> newly_created g (snd (extractColorChannels img g)) b)
       \<and> preserves g (snd (applyChannelThreshold img threshold channelIndex g))
       \<and> (\<forall>out. fst (applyChannelThreshold img threshold channelIndex g) = Inr (Some out) \<longrightarrow>
             newly_created g (snd (applyChannelThreshold img threshold channelIndex g)) out)
       \<and> preserves g (snd (applyColorSpaceThreshold img threshold g))
       \<and> (\<forall>out. fst (applyColorSpaceThreshold img threshold g) = Inr (Some out) \<longrightarrow>
             newly_created g (snd (applyColorSpaceThreshold img threshold g)) out)
       \<and> preserves g (snd (convertToHSV img g))
       \<and> (\<forall>out. fst (convertToHSV img g) = Inr (Some out) \<longrightarrow>
             newly_created g (snd (convertToHSV img g)) out)
       \<and> preserves g (snd (convertToLab img g))
       \<and> (\<forall>out. fst (convertToLab img g) = Inr (Some out) \<longrightarrow>
             newly_created g (snd (convertToLab img g)) out)
       \<and> preserves g (snd (pixelateImage (Some img) g))
       \<and> (\<forall>out. fst (pixelateImage (Some img) g) = Inr (Some out) \<longrightarrow>
             newly_created g (snd (pixelateImage (Some img) g)) out
             \<or> (out = img \<and> \<not> creation_succeeds g))
       \<and> preserves g (snd (blurImage blur img radius g))
       \<and> (\<forall>out. fst (blurImage blur img radius g) = Inr (Some out) \<longrightarrow>
             newly_created g (snd (blurImage blur img radius g)) out
             \<or> (out = img \<and> \<not> creation_succeeds g))"
proof -
  have gray: "preserves g (snd (createGrayscaleWithBrightness img g))
       \<and> (\<forall>out. fst (createGrayscaleWithBrightness img g) = Inr (Some out) \<longrightarrow>
             newly_created g (snd (createGrayscaleWithBrightness img g)) out)"
    using grayscale_frame [OF assms, of img] by (cases "createGrayscaleWithBrightness img g") simp
  have chan: "preserves g (snd (extractColorChannels img g))
       \<and> (\<forall>r gr b. fst (extractColorChannels img g) = Inr (r, gr, b) \<longrightarrow>
             newly_created g (snd (extractColorChannels img g)) r
             \<and> newly_created g (snd (extractColorChannels img g)) gr
             \<and> newly_created g (snd (extractColorChannels img g)) b)"
    using extractColorChannels_frame [OF assms, of img] by (cases "extractColorChannels img g") simp
  have fill: "preserves g (snd (create_and_fill f img g))
       \<and> (\<forall>out. fst (create_and_fill f img g) = Inr (Some out) \<longrightarrow>
             newly_created g (snd (create_and_fill f img g)) out)" for f
    using create_and_fill_frame [OF assms, of f img] by (cases "create_and_fill f img g") simp
  have pix: "preserves g (snd (pixelateImage (Some img) g))
       \<and> (\<forall>out. fst (pixelateImage (Some img) g) = Inr (Some out) \<longrightarrow>
             newly_created g (snd (pixelateImage (Some img) g)) out
             \<or> (out = img \<and> \<not> creation_succeeds g))"
    using pixelate_frame [OF assms, of "Some img"] by (cases "pixelateImage (Some img) g") auto
  have blr: "preserves g (snd (blurImage blur img radius g))
       \<and> (\<forall>out. fst (blurImage blur img radius g) = Inr (Some out) \<longrightarrow>
             newly_created g (snd (blurImage blur img radius g)) out
             \<or> (out = img \<and> \<not> creation_succeeds g))"
    using blur_frame [OF assms, of blur img radius] by (cases "blurImage blur img radius g") simp
  show ?thesis
    unfolding applyChannelThreshold_def applyColorSpaceThreshold_def convertToHSV_def
      convertToLab_def
    using gray chan fill pix blr by blast
qed

theorem transforms_leave_input_witness:
  "wf_graphics white_pixel_store
   \<and> preserves white_pixel_store (snd (createGrayscaleWithBrightness 0 white_pixel_store))
   \<and> fst (createGrayscaleWithBrightness 0 white_pixel_store) = Inr (Some 1)
   \<and> newly_created white_pixel_store (snd (createGrayscaleWithBrightness 0 white_pixel_store)) 1
   \<and> fst (pixelateImage (Some 0) white_pixel_store) = Inr (Some 1)
   \<and> newly_created white_pixel_store (snd (pixelateImage (Some 0) white_pixel_store)) 1
   \<and> preserves white_pixel_store (snd (convertToLab 0 white_pixel_store))"
proof -
  have wf: "wf_graphics white_pixel_store"
    by (simp add: wf_graphics_def white_pixel_store_def)
  have g: "fst (createGrayscaleWithBrightness 0 white_pixel_store) = Inr (Some 1)"
    by (simp add: white_pixel_store_def createGrayscaleWithBrightness_def safeCreateGraphics_def
        createGraphics_def fill_pixels_def blank_def)
  have p: "fst (pixelateImage (Some 0) white_pixel_store) = Inr (Some 1)"
    by (simp add: white_pixel_store_def pixelateImage_def safeCreateGraphics_def
        createGraphics_def blank_def)
  have c: "creation_succeeds white_pixel_store"
    by (simp add: creation_succeeds_def white_pixel_store_def)
  from transforms_leave_input [OF wf, of 0] wf g p c show ?thesis by simp
qed

section \<open>Face filters when the output cannot be created\<close>

lemma processFace_when_creation_fails:
  assumes "store g face = Some src" and "\<not> creation_succeeds g"
  shows "fst (processFace blur (Some face) filterType g)
           = (if filterType = 1 then None else Some face)"
  using assms
  by (auto simp: processFace_def createGrayscaleWithBrightness_def blurImage_def
      convertToHSV_def create_and_fill_def pixelateImage_def safeCreateGraphics_def
      createGraphics_fails)

text \<open>
  With filter 4, where the grayscale raster can be created and the pixelation output
  cannot, the grayscale raster is returned, which differs from the input.
\<close>

lemma processFace_pixelate_without_output:
  "fst (processFace blur (Some 0) 4 second_fails_store) = Some 1
   \<and> map_option pixels (store (snd (processFace blur (Some 0) 4 second_fails_store)) 1)
       = Some [22, 22, 22, 255]"
proof -
  have "(replicate 4 (0::real))[0 := c, Suc 0 := c, Suc (Suc 0) := c, 3 := 255] = [c, c, c, 255]" for c
    by (simp add: eval_nat_numeral)
  then show ?thesis
    by (simp add: processFace_def second_fails_store_def createGrayscaleWithBrightness_def
        pixelateImage_def safeCreateGraphics_def createGraphics_def fill_pixels_def blank_def
        pixel_loop.simps gray_tinted Let_def)
qed

text \<open>
  C2. With filter 1 (grayscale) on a face raster, where the output raster cannot be
  created, \<^verbatim>\<open>processFace\<close> returns \<^verbatim>\<open>null\<close>, not the input raster. (The lemmas
  above: every other filter returns the input then; filter 4 returns the grayscale
  raster where only the second output cannot be created.)
\<close>

theorem processFace_grayscale_without_output:
  "processFace blur (Some 0) 1 exhausted_store = (None, exhausted_store\<lparr>failing := []\<rparr>)"
  by (simp add: processFace_def createGrayscaleWithBrightness_def safeCreateGraphics_def
      createGraphics_def exhausted_store_def)

section \<open>The strategies return valid boxes inside the frame\<close>

lemma foldl_invariant:
  assumes "P a" and "\<And>a x. x \<in> set xs \<Longrightarrow> P a \<Longrightarrow> P (f a x)"
  shows "P (foldl f a xs)"
  using assms by (induction xs arbitrary: a) simp_all

lemma js_round_lower: "real_of_int a \<le> x \<Longrightarrow> a \<le> js_round x"
  unfolding js_round_def by linarith

lemma js_round_upper: "x \<le> real_of_int b \<Longrightarrow> js_round x \<le> b"
  unfolding js_round_def by linarith

lemma int_range_bounds: "v \<in> set (int_range i hi step) \<Longrightarrow> i \<le> v \<and> v \<le> hi"
proof (induction i hi step rule: int_range.induct)
  case (1 i hi step)
  then show ?case
    by (subst (asm) (2) int_range.simps) (auto split: if_splits)
qed

lemma int_range_first: "i \<le> hi \<Longrightarrow> 0 < step \<Longrightarrow> i \<in> set (int_range i hi step)"
  by (subst int_range.simps) simp

lemma skin_regions_origin:
  "(x, y, w, h) \<in> set (skin_regions img) \<Longrightarrow> 0 \<le> x \<and> 0 \<le> y"
  by (auto simp: skin_regions_def Let_def intro!: js_round_lower)

lemma valid_or_null_Some: "valid_or_null best = Some b \<longleftrightarrow> best = Some b \<and> isValidFaceSize b"
  by (auto simp: valid_or_null_def split: option.splits)

lemma detectBySkinTone_result:
  assumes "detectBySkinTone img = Inr (Some b)"
  shows "isValidFaceSize b \<and> within_frame img b"
proof -
  let ?P = "\<lambda>acc :: box option \<times> nat \<times> real. \<forall>c. fst acc = Some c \<longrightarrow> within_frame img c"
  have "?P (foldl (skin_region_step img) (None, 0, 0) (skin_regions img))"
  proof (rule foldl_invariant)
    show "?P (None, 0, 0)" by simp
  next
    fix acc :: "box option \<times> nat \<times> real" and region
    assume r: "region \<in> set (skin_regions img)" and p: "?P acc"
    obtain x y w h where reg: "region = (x, y, w, h)" by (cases region) auto
    obtain best n ratio where acc: "acc = (best, n, ratio)" by (cases acc) auto
    have "0 \<le> x \<and> 0 \<le> y" using r reg skin_regions_origin by blast
    then show "?P (skin_region_step img acc region)"
      using p by (auto simp: skin_region_step_def reg acc Let_def within_frame_def)
  qed
  then show ?thesis
    using assms
    by (auto simp: detectBySkinTone_def valid_or_null_Some split: if_splits prod.splits)
qed

lemma trackByMotion_result:
  assumes "trackByMotion fp img = Inr (Some b)"
  shows "isValidFaceSize b \<and> within_frame img b"
proof (cases "lastKnownFacePosition fp")
  case None
  then show ?thesis using assms by (simp add: trackByMotion_def)
next
  case (Some lastPos)
  let ?P = "\<lambda>acc. \<forall>c. snd acc = Some c \<longrightarrow> within_frame img c"
  let ?offs = "[(offsetX, offsetY). offsetY \<leftarrow> int_range (- searchRadius) searchRadius 8,
                 offsetX \<leftarrow> int_range (- searchRadius) searchRadius 8]"
  have inv: "?P (foldl (motion_step img lastPos) (0, None) ?offs)"
  proof (rule foldl_invariant)
    show "?P (0, None)" by simp
  next
    fix acc :: "real \<times> box option" and offset :: "int \<times> int"
    assume p: "?P acc"
    obtain ox oy where off: "offset = (ox, oy)" by (cases offset) auto
    obtain m best where acc: "acc = (m, best)" by (cases acc) auto
    show "?P (motion_step img lastPos acc offset)"
      using p by (auto simp: motion_step_def off acc Let_def within_frame_def)
  qed
  obtain m best where f: "foldl (motion_step img lastPos) (0, None) ?offs = (m, best)"
    by (cases "foldl (motion_step img lastPos) (0, None) ?offs") auto
  then have "valid_or_null best = Some b"
    using assms Some by (simp add: trackByMotion_def Let_def split: if_splits)
  then show ?thesis
    using inv f by (simp add: valid_or_null_Some)
qed

lemma scale_windows_member:
  assumes "(x, y, w, h) \<in> set (scale_windows img scale)"
  shows "35 \<le> w \<and> w \<le> 80 \<and> 35 \<le> h \<and> h \<le> 80
       \<and> 0 \<le> x \<and> x + w \<le> int (img_width img) \<and> 0 \<le> y \<and> y + h \<le> int (img_height img)"
proof -
  define sw where "sw = js_round (max 35 (min 80 (real (img_width img) * scale)))"
  define sh where "sh = js_round (max 35 (min 80 (real (img_height img) * scale)))"
  define st where "st = max 8 (js_round (real_of_int sw * 0.2))"
  have w: "35 \<le> sw" "sw \<le> 80" unfolding sw_def
    by (rule js_round_lower, simp) (rule js_round_upper, simp)
  have h: "35 \<le> sh" "sh \<le> 80" unfolding sh_def
    by (rule js_round_lower, simp) (rule js_round_upper, simp)
  have "scale_windows img scale =
          [(x, y, sw, sh). y \<leftarrow> int_range 0 (int (img_height img) - sh) st,
                           x \<leftarrow> int_range 0 (int (img_width img) - sw) st]"
    by (simp add: scale_windows_def Let_def sw_def sh_def st_def)
  with assms have "w = sw" "h = sh"
    and "x \<in> set (int_range 0 (int (img_width img) - sw) st)"
    and "y \<in> set (int_range 0 (int (img_height img) - sh) st)"
    by auto
  then show ?thesis using w h int_range_bounds [of x] int_range_bounds [of y] by fastforce
qed

lemma scanForFaceRegions_result:
  assumes "scanForFaceRegions img = Some b"
  shows "isValidFaceSize b \<and> within_frame img b"
proof -
  let ?P = "\<lambda>acc :: box option \<times> real. \<forall>c. fst acc = Some c \<longrightarrow> isValidFaceSize c \<and> within_frame img c"
  have "?P (foldl (scan_step img) (None, 0) (scan_windows img))"
  proof (rule foldl_invariant)
    show "?P (None, 0)" by simp
  next
    fix acc :: "box option \<times> real" and window
    assume m: "window \<in> set (scan_windows img)" and p: "?P acc"
    obtain x y w h where win: "window = (x, y, w, h)" by (cases window) auto
    obtain best sc where acc: "acc = (best, sc)" by (cases acc) auto
    from m obtain scale where "(x, y, w, h) \<in> set (scale_windows img scale)"
      by (auto simp: scan_windows_def win)
    from scale_windows_member [OF this]
    have "isValidFaceSize \<lparr>box_x = x, box_y = y, box_width = w, box_height = h\<rparr>
        \<and> within_frame img \<lparr>box_x = x, box_y = y, box_width = w, box_height = h\<rparr>"
      by (simp add: within_frame_def isValidFaceSize_def minFaceSize_def maxFaceSize_def)
    then show "?P (scan_step img acc window)"
      using p by (simp add: scan_step_def win acc Let_def)
  qed
  then show ?thesis
    using assms by (auto simp: scanForFaceRegions_def split: prod.splits if_splits)
qed

lemma getDefaultCenterFace_value:
  "getDefaultCenterFace = \<lparr>box_x = 40, box_y = 30, box_width = 80, box_height = 60\<rparr>"
  by (simp add: getDefaultCenterFace_def imageProcessor_width_def imageProcessor_height_def
      js_round_def Let_def)

lemma first_face_cases:
  "first_face s m c = b \<Longrightarrow> s = Some b \<or> m = Some b \<or> c = Some b \<or> b = getDefaultCenterFace"
  by (auto simp: first_face_def split: option.splits)

text \<open>
  C10. On a captured frame of the default size 160 x 120, whatever the tracker's state
  and whichever path is taken (a strategy's box, the centre fallback, a missing image,
  an error caught), \<^verbatim>\<open>detectFaceManually\<close> returns a box with non-negative
  coordinates that ends inside the frame and passes \<^verbatim>\<open>isValidFaceSize\<close> (width and
  height in [30, 100]); the centre fallback is the 80 x 60 box at (40, 30).
\<close>

theorem manual_detection_in_frame:
  assumes "\<forall>img. captured = Some img \<longrightarrow> img_width img = 160 \<and> img_height img = 120"
  shows "0 \<le> box_x (fst (detectFaceManually fp faceImage captured))
       \<and> 0 \<le> box_y (fst (detectFaceManually fp faceImage captured))
       \<and> box_x (fst (detectFaceManually fp faceImage captured))
           + box_width (fst (detectFaceManually fp faceImage captured)) \<le> 160
       \<and> box_y (fst (detectFaceManually fp faceImage captured))
           + box_height (fst (detectFaceManually fp faceImage captured)) \<le> 120
       \<and> isValidFaceSize (fst (detectFaceManually fp faceImage captured))
       \<and> 30 \<le> box_width (fst (detectFaceManually fp faceImage captured))
       \<and> box_width (fst (detectFaceManually fp faceImage captured)) \<le> 100
       \<and> 30 \<le> box_height (fst (detectFaceManually fp faceImage captured))
       \<and> box_height (fst (detectFaceManually fp faceImage captured)) \<le> 100
       \<and> getDefaultCenterFace = \<lparr>box_x = 40, box_y = 30, box_width = 80, box_height = 60\<rparr>"
proof -
  let ?b = "fst (detectFaceManually fp faceImage captured)"
  have centre: "isValidFaceSize getDefaultCenterFace
      \<and> 0 \<le> box_x getDefaultCenterFace \<and> 0 \<le> box_y getDefaultCenterFace
      \<and> box_x getDefaultCenterFace + box_width getDefaultCenterFace \<le> 160
      \<and> box_y getDefaultCenterFace + box_height getDefaultCenterFace \<le> 120"
    by (simp add: getDefaultCenterFace_value isValidFaceSize_def minFaceSize_def maxFaceSize_def)
  have "isValidFaceSize ?b \<and> 0 \<le> box_x ?b \<and> 0 \<le> box_y ?b
      \<and> box_x ?b + box_width ?b \<le> 160 \<and> box_y ?b + box_height ?b \<le> 120"
  proof (cases "\<exists>canvas img. faceImage = Some canvas \<and> captured = Some img")
    case False
    then have "?b = getDefaultCenterFace"
      by (auto simp: detectFaceManually_def split: option.splits)
    then show ?thesis using centre by simp
  next
    case True
    then obtain canvas img where im: "faceImage = Some canvas" "captured = Some img" by blast
    then have size: "img_width img = 160" "img_height img = 120" using assms by simp_all
    show ?thesis
    proof (cases "detectBySkinTone img")
      case (Inl e)
      then have "?b = getDefaultCenterFace" by (simp add: detectFaceManually_def im)
      then show ?thesis using centre by simp
    next
      case skin: (Inr skinToneFace)
      show ?thesis
      proof (cases "trackByMotion fp img")
        case (Inl e)
        then have "?b = getDefaultCenterFace" by (simp add: detectFaceManually_def im skin)
        then show ?thesis using centre by simp
      next
        case motion: (Inr motionFace)
        have "?b = first_face skinToneFace motionFace (scanForFaceRegions img)"
          by (simp add: detectFaceManually_def im skin motion Let_def)
        from first_face_cases [OF this [symmetric]]
        consider "detectBySkinTone img = Inr (Some ?b)" | "trackByMotion fp img = Inr (Some ?b)"
          | "scanForFaceRegions img = Some ?b" | "?b = getDefaultCenterFace"
          using skin motion by auto
        then show ?thesis
        proof cases
          case 1
          from detectBySkinTone_result [OF this] size show ?thesis
            by (simp add: within_frame_def)
        next
          case 2
          from trackByMotion_result [OF this] size show ?thesis
            by (simp add: within_frame_def)
        next
          case 3
          from scanForFaceRegions_result [OF this] size show ?thesis
            by (simp add: within_frame_def)
        next
          case 4
          then show ?thesis using centre by simp
        qed
      qed
    qed
  qed
  then show ?thesis
    using getDefaultCenterFace_value
    by (simp add: isValidFaceSize_def minFaceSize_def maxFaceSize_def)
qed

theorem manual_detection_in_frame_witness:
  "img_width black_frame = 160 \<and> img_height black_frame = 120
   \<and> 0 \<le> box_x (fst (detectFaceManually new_FaceProcessor (Some black_frame) (Some black_frame)))
   \<and> box_x (fst (detectFaceManually new_FaceProcessor (Some black_frame) (Some black_frame)))
       + box_width (fst (detectFaceManually new_FaceProcessor (Some black_frame) (Some black_frame)))
       \<le> 160
   \<and> isValidFaceSize (fst (detectFaceManually new_FaceProcessor (Some black_frame) (Some black_frame)))"
proof -
  have "\<forall>img. Some black_frame = Some img \<longrightarrow> img_width img = 160 \<and> img_height img = 120"
    by (simp add: black_frame_def)
  from manual_detection_in_frame [OF this, of new_FaceProcessor "Some black_frame"]
  show ?thesis by (simp add: black_frame_def)
qed

section \<open>The order of the strategies\<close>

lemma calculateSkinDensity_nonneg: "0 \<le> calculateSkinDensity img x y w h"
  by (simp add: calculateSkinDensity_def Let_def)

lemma standardDeviation_nonneg: "0 \<le> standardDeviation values"
  by (auto simp: standardDeviation_def Let_def intro!: divide_nonneg_nonneg sum_list_nonneg)

lemma calculateColorVariation_nonneg: "0 \<le> calculateColorVariation img x y w h"
  by (simp add: calculateColorVariation_def Let_def standardDeviation_nonneg)

lemma scan_fold:
  assumes "\<forall>w \<in> S. (case w of (x, y, sw, sh) \<Rightarrow> scoreFaceRegion img x y sw sh) \<le> m"
    and "0 < m \<longrightarrow> best \<noteq> None" and "0 \<le> m"
  shows "case foldl (scan_step img) (best, m) ws of
           (best', m') \<Rightarrow>
             (\<forall>w \<in> S \<union> set ws. (case w of (x, y, sw, sh) \<Rightarrow> scoreFaceRegion img x y sw sh) \<le> m')
             \<and> (0 < m' \<longrightarrow> best' \<noteq> None) \<and> 0 \<le> m'"
  using assms
proof (induction ws arbitrary: best m S)
  case Nil
  then show ?case by simp
next
  case (Cons win ws)
  obtain x y sw sh where win: "win = (x, y, sw, sh)" by (cases win) auto
  let ?s = "scoreFaceRegion img x y sw sh"
  show ?case
  proof (cases "?s > m")
    case True
    have step: "scan_step img (best, m) win =
        (Some \<lparr>box_x = x, box_y = y, box_width = sw, box_height = sh\<rparr>, ?s)"
      using True by (simp add: scan_step_def win Let_def)
    have "\<forall>w \<in> insert win S. (case w of (x, y, sw, sh) \<Rightarrow> scoreFaceRegion img x y sw sh) \<le> ?s"
      using Cons.prems(1) True by (auto simp: win intro: order_trans less_imp_le)
    from Cons.IH [OF this, of "Some \<lparr>box_x = x, box_y = y, box_width = sw, box_height = sh\<rparr>"]
    show ?thesis using True Cons.prems(3) by (simp add: step)
  next
    case False
    have step: "scan_step img (best, m) win = (best, m)"
      using False by (simp add: scan_step_def win Let_def)
    have "\<forall>w \<in> insert win S. (case w of (x, y, sw, sh) \<Rightarrow> scoreFaceRegion img x y sw sh) \<le> m"
      using Cons.prems(1) False by (auto simp: win)
    from Cons.IH [OF this Cons.prems(2,3)]
    show ?thesis by (simp add: step)
  qed
qed

lemma scan_finds:
  assumes "(x, y, sw, sh) \<in> set (scan_windows img)"
    and "scoreFaceRegion img x y sw sh > 0.15"
  shows "scanForFaceRegions img \<noteq> None"
proof -
  obtain best m where f: "foldl (scan_step img) (None, 0) (scan_windows img) = (best, m)"
    by (cases "foldl (scan_step img) (None, 0) (scan_windows img)") auto
  from scan_fold [of "{}" img 0 None "scan_windows img"] f
  have all: "\<forall>w \<in> set (scan_windows img).
               (case w of (x, y, sw, sh) \<Rightarrow> scoreFaceRegion img x y sw sh) \<le> m"
    and some: "0 < m \<longrightarrow> best \<noteq> None"
    by simp_all
  from all assms(1) have "scoreFaceRegion img x y sw sh \<le> m" by fastforce
  then have "m > 0.15" using assms(2) by simp
  then show ?thesis using some by (simp add: scanForFaceRegions_def f)
qed

lemma no_skin_no_region:
  assumes "\<forall>idx. \<not> skin_at img idx" and "loadable img"
  shows "detectBySkinTone img = Inr None"
proof -
  have "foldl (skin_region_step img) (None, 0, 0) (skin_regions img) = (None, 0, 0)"
  proof (rule foldl_invariant [where P = "\<lambda>acc. acc = (None, 0, 0)"])
    show "(None, 0, 0) = (None, 0::nat, 0::real)" by simp
  next
    fix acc :: "box option \<times> nat \<times> real" and region
    assume "acc = (None, 0, 0)"
    then show "skin_region_step img acc region = (None, 0, 0)"
      using assms(1) by (simp add: skin_region_step_def Let_def split: prod.splits)
  qed
  then show ?thesis using assms(2) by (simp add: detectBySkinTone_def valid_or_null_def)
qed

lemma black_frame_no_skin: "\<not> skin_at black_frame idx"
  by (auto simp: skin_at_def pixel_read_def black_frame_def isSkinTone_def split: option.splits)

lemma black_frame_scan: "scanForFaceRegions black_frame \<noteq> None"
proof (rule scan_finds [of 0 0 48 36])
  have "scale_windows black_frame 0.3 =
          [(x, y, 48, 36). y \<leftarrow> int_range 0 84 10, x \<leftarrow> int_range 0 112 10]"
    by (simp add: scale_windows_def black_frame_def js_round_def Let_def)
  moreover have "(0::int) \<in> set (int_range 0 84 10)" "(0::int) \<in> set (int_range 0 112 10)"
    by (rule int_range_first; simp)+
  ultimately have "(0, 0, 48, 36) \<in> set (scale_windows black_frame 0.3)" by force
  then show "(0, 0, 48, 36) \<in> set (scan_windows black_frame)"
    by (simp add: scan_windows_def scan_scales_def)
next
  have "scoreFaceRegion black_frame 0 0 48 36 \<ge>
          (clamp01 (1.0 - \<bar>(0 + 36 / 2) - 120 * 0.35\<bar> / (120 * 0.35)) * 0.25) +
          (clamp01 (1.0 - \<bar>(48 + 36) / 2 - 50\<bar> / 50) * 0.1) +
          (clamp01 (1.0 - \<bar>48 / 36 - 0.8\<bar> / 0.8) * 0.1)"
    using calculateSkinDensity_nonneg [of black_frame 0 0 48 36]
      calculateColorVariation_nonneg [of black_frame 0 0 48 36]
    by (simp add: scoreFaceRegion_def black_frame_def Let_def)
  moreover have "(clamp01 (1.0 - \<bar>(0 + 36 / 2) - 120 * 0.35\<bar> / (120 * 0.35)) * 0.25) +
          (clamp01 (1.0 - \<bar>(48 + 36) / 2 - 50\<bar> / 50) * 0.1) +
          (clamp01 (1.0 - \<bar>48 / 36 - 0.8\<bar> / 0.8) * 0.1) > (0.15 :: real)"
    by (simp add: clamp01_def)
  ultimately show "scoreFaceRegion black_frame 0 0 48 36 > 0.15" by linarith
qed

text \<open>
  C1. Where \<^verbatim>\<open>detectBySkinTone\<close> returns \<^verbatim>\<open>null\<close>, no last position is known and
  \<^verbatim>\<open>scanForFaceRegions\<close> returns a region (its best-scoring window, of score above
  0.15), \<^verbatim>\<open>detectFaceManually\<close> returns that region. In general, where no strategy
  raises, the result is the first of the skin-tone, motion and scan results that is not
  \<^verbatim>\<open>null\<close>, in this order, and the centre box if all are \<^verbatim>\<open>null\<close>.
\<close>

theorem fallback_order:
  "(detectBySkinTone img = Inr None \<and> lastKnownFacePosition fp = None
      \<and> scanForFaceRegions img = Some b
      \<longrightarrow> trackByMotion fp img = Inr None
          \<and> fst (detectFaceManually fp (Some canvas) (Some img)) = b)
   \<and> (detectBySkinTone img = Inr skinToneFace \<and> trackByMotion fp img = Inr motionFace
      \<longrightarrow> fst (detectFaceManually fp (Some canvas) (Some img))
            = first_face skinToneFace motionFace (scanForFaceRegions img))
   \<and> first_face (Some s) m c = s
   \<and> first_face None (Some t) c = t
   \<and> first_face None None (Some u) = u
   \<and> first_face None None None = getDefaultCenterFace"
  by (simp add: detectFaceManually_def trackByMotion_def first_face_def Let_def)

theorem fallback_order_witness:
  "detectBySkinTone black_frame = Inr None
   \<and> lastKnownFacePosition new_FaceProcessor = None
   \<and> scanForFaceRegions black_frame \<noteq> None
   \<and> trackByMotion new_FaceProcessor black_frame = Inr None
   \<and> Some (fst (detectFaceManually new_FaceProcessor (Some black_frame) (Some black_frame)))
       = scanForFaceRegions black_frame"
proof -
  have skin: "detectBySkinTone black_frame = Inr None"
    using black_frame_no_skin by (intro no_skin_no_region) (simp_all add: black_frame_def)
  have last: "lastKnownFacePosition new_FaceProcessor = None"
    by (simp add: new_FaceProcessor_def)
  obtain b where scan: "scanForFaceRegions black_frame = Some b"
    using black_frame_scan by auto
  from fallback_order [of black_frame new_FaceProcessor b black_frame] skin last scan
  show ?thesis by simp
qed

section \<open>From RGB to HSV and back\<close>

lemma fmod2_ranges:
  "0 \<le> x \<Longrightarrow> x < 2 \<Longrightarrow> fmod2 x = x"
  "2 \<le> x \<Longrightarrow> x < 4 \<Longrightarrow> fmod2 x = x - 2"
  "4 \<le> x \<Longrightarrow> x < 6 \<Longrightarrow> fmod2 x = x - 4"
proof -
  show "0 \<le> x \<Longrightarrow> x < 2 \<Longrightarrow> fmod2 x = x"
  proof -
    assume "0 \<le> x" "x < 2"
    then have "\<lfloor>x / 2\<rfloor> = 0" by (intro floor_unique) simp_all
    then show ?thesis by (simp add: fmod2_def)
  qed
  show "2 \<le> x \<Longrightarrow> x < 4 \<Longrightarrow> fmod2 x = x - 2"
  proof -
    assume "2 \<le> x" "x < 4"
    then have "\<lfloor>x / 2\<rfloor> = 1" by (intro floor_unique) simp_all
    then show ?thesis by (simp add: fmod2_def)
  qed
  show "4 \<le> x \<Longrightarrow> x < 6 \<Longrightarrow> fmod2 x = x - 4"
  proof -
    assume "4 \<le> x" "x < 6"
    then have "\<lfloor>x / 2\<rfloor> = 2" by (intro floor_unique) simp_all
    then show ?thesis by (simp add: fmod2_def)
  qed
qed

lemma sector_up0:
  assumes "0 \<le> t" "t \<le> 1"
  shows "hsvToRgb (60 * t) s v = (v, v - v * s / 255 + v * s / 255 * t, v - v * s / 255)"
proof (cases "t < 1")
  case True
  then show ?thesis using assms
    by (simp add: hsvToRgb_def Let_def fmod2_ranges(1) field_simps)
next
  case False
  then have "t = 1" using assms by simp
  then show ?thesis
    by (simp add: hsvToRgb_def Let_def fmod2_ranges(1) field_simps)
qed

lemma sector_up2:
  assumes "0 \<le> t" "t \<le> 1"
  shows "hsvToRgb (60 * (2 + t)) s v = (v - v * s / 255, v, v - v * s / 255 + v * s / 255 * t)"
proof (cases "t < 1")
  case True
  then show ?thesis using assms
    by (simp add: hsvToRgb_def Let_def fmod2_ranges(2) field_simps)
next
  case False
  then have "t = 1" using assms by simp
  then show ?thesis
    by (simp add: hsvToRgb_def Let_def fmod2_ranges(2) field_simps)
qed

lemma sector_up4:
  assumes "0 \<le> t" "t \<le> 1"
  shows "hsvToRgb (60 * (4 + t)) s v = (v - v * s / 255 + v * s / 255 * t, v - v * s / 255, v)"
proof (cases "t < 1")
  case True
  then show ?thesis using assms
    by (simp add: hsvToRgb_def Let_def fmod2_ranges(3) field_simps)
next
  case False
  then have "t = 1" using assms by simp
  then show ?thesis
    by (simp add: hsvToRgb_def Let_def fmod2_ranges(3) field_simps)
qed

lemma sector_down2:
  assumes "0 \<le> t" "t \<le> 1"
  shows "hsvToRgb (60 * (2 - t)) s v = (v - v * s / 255 + v * s / 255 * t, v, v - v * s / 255)"
proof (cases "0 < t")
  case True
  then show ?thesis using assms
    by (simp add: hsvToRgb_def Let_def fmod2_ranges(1) field_simps)
next
  case False
  then have "t = 0" using assms by simp
  then show ?thesis
    by (simp add: hsvToRgb_def Let_def fmod2_ranges(2) field_simps)
qed

lemma sector_down4:
  assumes "0 \<le> t" "t \<le> 1"
  shows "hsvToRgb (60 * (4 - t)) s v = (v - v * s / 255, v - v * s / 255 + v * s / 255 * t, v)"
proof (cases "0 < t")
  case True
  then show ?thesis using assms
    by (simp add: hsvToRgb_def Let_def fmod2_ranges(2) field_simps)
next
  case False
  then have "t = 0" using assms by simp
  then show ?thesis
    by (simp add: hsvToRgb_def Let_def fmod2_ranges(3) field_simps)
qed

lemma sector_down6:
  assumes "0 < t" "t \<le> 1"
  shows "hsvToRgb (60 * (6 - t)) s v = (v, v - v * s / 255, v - v * s / 255 + v * s / 255 * t)"
  using assms by (simp add: hsvToRgb_def Let_def fmod2_ranges(3) field_simps)

lemma js_round_near: "\<bar>real_of_int (js_round x) - x\<bar> \<le> 1 / 2"
  unfolding js_round_def by linarith

lemma js_round_nearest: "\<bar>real_of_int (js_round x) - x\<bar> \<le> \<bar>real_of_int n - x\<bar>"
proof (cases "n \<le> js_round x")
  case True
  show ?thesis
  proof (cases "n = js_round x")
    case True
    then show ?thesis by simp
  next
    case False
    then have "n \<le> js_round x - 1" using \<open>n \<le> js_round x\<close> by simp
    then have "real_of_int n \<le> real_of_int (js_round x) - 1" by linarith
    then show ?thesis using js_round_near [of x] by linarith
  qed
next
  case False
  then have "js_round x + 1 \<le> n" by simp
  then have "real_of_int (js_round x) + 1 \<le> real_of_int n" by linarith
  then show ?thesis using js_round_near [of x] by linarith
qed

lemma js_round_shift: "js_round (real_of_int k + x) = k + js_round x"
  unfolding js_round_def by (simp add: add.assoc)

lemma js_round_mono: "x \<le> y \<Longrightarrow> js_round x \<le> js_round y"
  unfolding js_round_def by (intro floor_mono) simp

lemma eps_tiny:
  assumes "0 \<le> k" and "k \<le> 1000000"
  shows "k * eps \<le> 1 / 10 ^ 9"
proof -
  have "k * eps \<le> 1000000 * eps"
    using assms eps_bounds(1) by (intro mult_right_mono) simp_all
  then show ?thesis using eps_bounds(3) by (rule order_trans)
qed

lemma div_close:
  fixes N N0 D D0 a :: real
  assumes "\<bar>N - N0\<bar> \<le> a" and "\<bar>D - D0\<bar> \<le> a" and "\<bar>N0\<bar> \<le> D0" and "1 / 255 \<le> D0"
    and "a \<le> 1 / 100000"
  shows "\<bar>N / D - N0 / D0\<bar> \<le> 512 * a"
proof -
  have a0: "0 \<le> a" using assms(1) by linarith
  have D0: "0 < D0" using assms(4) by linarith
  have D: "1 / 256 \<le> D" using assms(2,4,5) by linarith
  then have Dp: "0 < D" by linarith
  define q where "q = N0 / D0"
  have q: "\<bar>q\<bar> \<le> 1" unfolding q_def using assms(3) D0 by (simp add: field_simps)
  have n: "N0 = q * D0" unfolding q_def using D0 by simp
  define z where "z = q * (D - D0)"
  define w where "w = (N / D - q) * D"
  define v where "v = \<bar>N / D - q\<bar>"
  have "w = (N - N0) - z"
    unfolding z_def w_def using Dp by (simp add: field_simps n)
  moreover have "\<bar>z\<bar> \<le> 1 * a"
    unfolding z_def abs_mult using q assms(2) by (intro mult_mono) simp_all
  ultimately have "\<bar>w\<bar> \<le> 2 * a" using assms(1) by linarith
  then have b: "v * D \<le> 2 * a" unfolding w_def v_def using Dp by (simp add: abs_mult)
  have "v * (1 / 256) \<le> v * D"
    using D unfolding v_def by (intro mult_left_mono) simp_all
  then have "v * (1 / 256) \<le> 2 * a" using b by linarith
  then have "v \<le> 512 * a" by linarith
  then show ?thesis unfolding v_def q_def .
qed

lemma scale_cancel: "(a::real) / 255 / (b / 255) = a / b"
  by simp

lemma channel_close:
  fixes p :: int
  assumes "0 \<le> p" "p \<le> 255"
  shows "\<bar>double (real_of_int p / 255) - real_of_int p / 255\<bar> \<le> 2 * eps"
proof -
  have "\<bar>real_of_int p / 255 - real_of_int p / 255\<bar> \<le> 0" "\<bar>real_of_int p / 255\<bar> \<le> 1"
    using assms by simp_all
  from double_close [OF this] show ?thesis by simp
qed

lemma channel_less:
  fixes p q :: int
  assumes "0 \<le> p" "p < q" "q \<le> 255"
  shows "double (real_of_int p / 255) < double (real_of_int q / 255)"
proof -
  have "real_of_int p + 1 \<le> real_of_int q" using assms by linarith
  then have "real_of_int p / 255 + 1 / 255 \<le> real_of_int q / 255" by (simp add: field_simps)
  moreover have "\<bar>double (real_of_int p / 255) - real_of_int p / 255\<bar> \<le> 2 * eps"
    using assms by (intro channel_close) simp_all
  moreover have "\<bar>double (real_of_int q / 255) - real_of_int q / 255\<bar> \<le> 2 * eps"
    using assms by (intro channel_close) simp_all
  ultimately show ?thesis using eps_bounds by linarith
qed

lemma channel_le:
  fixes p q :: int
  assumes "0 \<le> p" "p \<le> q" "q \<le> 255"
  shows "double (real_of_int p / 255) \<le> double (real_of_int q / 255)"
proof (cases "p = q")
  case True
  then show ?thesis by simp
next
  case False
  then have "p < q" using assms by simp
  from channel_less [OF assms(1) this assms(3)] show ?thesis by simp
qed

lemma channel_eq_iff:
  fixes p q :: int
  assumes "0 \<le> p" "p \<le> 255" "0 \<le> q" "q \<le> 255"
  shows "double (real_of_int p / 255) = double (real_of_int q / 255) \<longleftrightarrow> p = q"
proof -
  consider "p < q" | "q < p" | "p = q" by linarith
  then show ?thesis
  proof cases
    case 1
    from channel_less [OF assms(1) this assms(4)] 1 show ?thesis by simp
  next
    case 2
    from channel_less [OF assms(3) this assms(2)] 2 show ?thesis by simp
  next
    case 3
    then show ?thesis by simp
  qed
qed

lemma channel_max:
  fixes r g b :: int
  assumes "0 \<le> r" "r \<le> 255" "0 \<le> g" "g \<le> 255" "0 \<le> b" "b \<le> 255"
  shows "max (double (real_of_int r / 255))
           (max (double (real_of_int g / 255)) (double (real_of_int b / 255)))
         = double (real_of_int (max r (max g b)) / 255)"
    and "min (double (real_of_int r / 255))
           (min (double (real_of_int g / 255)) (double (real_of_int b / 255)))
         = double (real_of_int (min r (min g b)) / 255)"
proof -
  have le: "p \<le> q \<Longrightarrow> double (real_of_int p / 255) \<le> double (real_of_int q / 255)"
    if "p \<in> {r, g, b}" "q \<in> {r, g, b}" for p q
    using that assms by (intro channel_le) auto
  have m2: "max (double (real_of_int p / 255)) (double (real_of_int q / 255))
              = double (real_of_int (max p q) / 255)"
    "min (double (real_of_int p / 255)) (double (real_of_int q / 255))
              = double (real_of_int (min p q) / 255)"
    if "p \<in> {r, g, b}" "q \<in> {r, g, b}" for p q
    using le [OF that] le [OF that(2) that(1)] by (cases "p \<le> q"; simp add: max_def min_def)+
  have in1: "max g b \<in> {r, g, b}" "min g b \<in> {r, g, b}" by (simp_all add: max_def min_def)
  show "max (double (real_of_int r / 255))
           (max (double (real_of_int g / 255)) (double (real_of_int b / 255)))
         = double (real_of_int (max r (max g b)) / 255)"
    using m2(1) [of g b] m2(1) [of r "max g b"] in1 by simp
  show "min (double (real_of_int r / 255))
           (min (double (real_of_int g / 255)) (double (real_of_int b / 255)))
         = double (real_of_int (min r (min g b)) / 255)"
    using m2(2) [of g b] m2(2) [of r "min g b"] in1 by simp
qed

lemma difference_close:
  fixes p q :: int
  assumes "0 \<le> p" "p \<le> 255" "0 \<le> q" "q \<le> 255"
  shows "\<bar>double (double (real_of_int p / 255) - double (real_of_int q / 255))
           - (real_of_int p - real_of_int q) / 255\<bar> \<le> 6 * eps"
proof -
  have "\<bar>double (real_of_int p / 255) - real_of_int p / 255\<bar> \<le> 2 * eps"
    "\<bar>double (real_of_int q / 255) - real_of_int q / 255\<bar> \<le> 2 * eps"
    using assms by (intro channel_close; simp)+
  then have "\<bar>double (real_of_int p / 255) - double (real_of_int q / 255)
               - (real_of_int p - real_of_int q) / 255\<bar> \<le> 4 * eps"
    by (simp add: diff_divide_distrib)
  moreover have "\<bar>(real_of_int p - real_of_int q) / 255\<bar> \<le> 1" using assms by simp
  moreover have "4 * eps \<le> 1" using eps_bounds by linarith
  ultimately have "\<bar>double (double (real_of_int p / 255) - double (real_of_int q / 255))
           - (real_of_int p - real_of_int q) / 255\<bar> \<le> 4 * eps + (1 + 1) * eps"
    by (rule double_close)
  then show ?thesis by simp
qed

lemma quotient_close:
  fixes p q M m :: int
  assumes "0 \<le> p" "p \<le> 255" "0 \<le> q" "q \<le> 255" "0 \<le> m" "m < M" "M \<le> 255"
    and "\<bar>p - q\<bar> \<le> M - m"
  shows "\<bar>double (double (double (real_of_int p / 255) - double (real_of_int q / 255))
                   / double (double (real_of_int M / 255) - double (real_of_int m / 255)))
           - (real_of_int p - real_of_int q) / (real_of_int M - real_of_int m)\<bar> \<le> 3074 * eps"
proof -
  define N where "N = double (double (real_of_int p / 255) - double (real_of_int q / 255))"
  define D where "D = double (double (real_of_int M / 255) - double (real_of_int m / 255))"
  define N0 where "N0 = (real_of_int p - real_of_int q) / 255"
  define D0 where "D0 = (real_of_int M - real_of_int m) / 255"
  have N: "\<bar>N - N0\<bar> \<le> 6 * eps"
    unfolding N_def N0_def using assms by (intro difference_close) simp_all
  have D: "\<bar>D - D0\<bar> \<le> 6 * eps"
    unfolding D_def D0_def using assms by (intro difference_close) simp_all
  have "\<bar>real_of_int p - real_of_int q\<bar> \<le> real_of_int M - real_of_int m"
    using assms(8) by linarith
  then have nd: "\<bar>N0\<bar> \<le> D0" unfolding N0_def D0_def by simp
  have "1 \<le> real_of_int M - real_of_int m" using assms(6) by linarith
  then have d1: "1 / 255 \<le> D0" unfolding D0_def by simp
  have small: "6 * eps \<le> 1 / 100000" using eps_bounds by linarith
  from div_close [OF N D nd d1 small] have c: "\<bar>N / D - N0 / D0\<bar> \<le> 3072 * eps" by simp
  have D0p: "0 < D0" using d1 by linarith
  have "\<bar>N0 / D0\<bar> \<le> 1" using nd D0p by (simp add: field_simps)
  moreover have "3072 * eps \<le> 1" using eps_bounds by linarith
  ultimately have "\<bar>double (N / D) - N0 / D0\<bar> \<le> 3072 * eps + (1 + 1) * eps"
    using c by (intro double_close)
  moreover have "N0 / D0 = (real_of_int p - real_of_int q) / (real_of_int M - real_of_int m)"
    unfolding N0_def D0_def by (rule scale_cancel)
  ultimately show ?thesis unfolding N_def D_def by simp
qed

lemma saturation_close:
  fixes M m :: int
  assumes "0 \<le> m" "m < M" "M \<le> 255"
  shows "\<bar>double (double (double (double (real_of_int M / 255) - double (real_of_int m / 255))
                             / double (real_of_int M / 255)) * 255)
           - (real_of_int M - real_of_int m) / real_of_int M * 255\<bar> \<le> 1 / 10 ^ 9"
proof -
  define N where "N = double (double (real_of_int M / 255) - double (real_of_int m / 255))"
  define D where "D = double (real_of_int M / 255)"
  define N0 where "N0 = (real_of_int M - real_of_int m) / 255"
  define D0 where "D0 = real_of_int M / 255"
  have N: "\<bar>N - N0\<bar> \<le> 6 * eps"
    unfolding N_def N0_def using assms by (intro difference_close) simp_all
  have "\<bar>D - D0\<bar> \<le> 2 * eps"
    unfolding D_def D0_def using assms by (intro channel_close) simp_all
  then have D: "\<bar>D - D0\<bar> \<le> 6 * eps" using eps_bounds by linarith
  have nd: "\<bar>N0\<bar> \<le> D0" unfolding N0_def D0_def using assms by simp
  have "1 \<le> real_of_int M" using assms by linarith
  then have d1: "1 / 255 \<le> D0" unfolding D0_def by simp
  have small: "6 * eps \<le> 1 / 100000" using eps_bounds by linarith
  from div_close [OF N D nd d1 small] have c: "\<bar>N / D - N0 / D0\<bar> \<le> 3072 * eps" by simp
  have D0p: "0 < D0" using d1 by linarith
  have q1: "\<bar>N0 / D0\<bar> \<le> 1" using nd D0p by (simp add: field_simps)
  moreover have "3072 * eps \<le> 1" using eps_bounds by linarith
  ultimately have "\<bar>double (N / D) - N0 / D0\<bar> \<le> 3072 * eps + (1 + 1) * eps"
    using c by (intro double_close)
  then have s: "\<bar>double (N / D) - N0 / D0\<bar> \<le> 3074 * eps" by simp
  have "\<bar>(255::real) - 255\<bar> \<le> 0" "\<bar>255::real\<bar> \<le> 255" by simp_all
  from mult_close [OF s this(1) q1 this(2)]
  have m: "\<bar>double (N / D) * 255 - N0 / D0 * 255\<bar> \<le> 783870 * eps" by simp
  have "\<bar>y * 255\<bar> \<le> 255" if "\<bar>y\<bar> \<le> 1" for y :: real using that by linarith
  from this [OF q1] have "\<bar>N0 / D0 * 255\<bar> \<le> 255" .
  moreover have "783870 * eps \<le> 1" using eps_bounds by linarith
  ultimately have "\<bar>double (double (N / D) * 255) - N0 / D0 * 255\<bar> \<le> 783870 * eps + (255 + 1) * eps"
    using m by (intro double_close)
  moreover have "783870 * eps + (255 + 1) * eps \<le> 1 / 10 ^ 9"
    using eps_tiny [of 784126] by simp
  ultimately have "\<bar>double (double (N / D) * 255) - N0 / D0 * 255\<bar> \<le> 1 / 10 ^ 9"
    by (rule order_trans)
  moreover have "N0 / D0 = (real_of_int M - real_of_int m) / real_of_int M"
    unfolding N0_def D0_def by (rule scale_cancel)
  ultimately show ?thesis unfolding N_def D_def by simp
qed

lemma value_exact:
  fixes M :: int
  assumes "0 \<le> M" "M \<le> 255"
  shows "js_round (double (double (real_of_int M / 255) * 255)) = M"
proof -
  have "0 \<le> real_of_int M / 255" "real_of_int M / 255 \<le> 1" "(0::real) \<le> 255" "(255::real) \<le> 255"
    using assms by simp_all
  from scaled_channel_close [OF this]
  have "\<bar>double (double (real_of_int M / 255) * 255) - real_of_int M\<bar> \<le> 766 * eps" by simp
  then have c: "\<bar>double (double (real_of_int M / 255) * 255) - real_of_int M\<bar> \<le> 1 / 4"
    using eps_bounds by linarith
  show ?thesis
    unfolding js_round_def
  proof (rule floor_unique)
    show "real_of_int M \<le> double (double (real_of_int M / 255) * 255) + 1 / 2"
      using c by linarith
    show "double (double (real_of_int M / 255) * 255) + 1 / 2 < real_of_int M + 1"
      using c by linarith
  qed
qed

lemma js_rem_small: "\<bar>x\<bar> < 6 \<Longrightarrow> js_rem x 6 = x"
proof -
  assume a: "\<bar>x\<bar> < 6"
  have "x / 6 \<ge> 0 \<Longrightarrow> \<lfloor>x / 6\<rfloor> = 0" using a by (intro floor_unique) simp_all
  moreover have "\<not> x / 6 \<ge> 0 \<Longrightarrow> \<lceil>x / 6\<rceil> = 0" using a by (intro ceiling_unique) simp_all
  ultimately show ?thesis by (simp add: js_rem_def)
qed

lemma shift_close:
  fixes Q t k :: real
  assumes "\<bar>Q - t\<bar> \<le> 3074 * eps" and "\<bar>t\<bar> \<le> 1" and "0 \<le> k" and "k \<le> 4"
  shows "\<bar>double (Q + k) - (t + k)\<bar> \<le> 3080 * eps"
proof -
  have "\<bar>Q + k - (t + k)\<bar> \<le> 3074 * eps" "\<bar>t + k\<bar> \<le> 5" "3074 * eps \<le> 1"
    using assms eps_bounds by linarith+
  from double_close [OF this] show ?thesis by simp
qed

lemma scale60_close:
  fixes H h :: real
  assumes "\<bar>H - h\<bar> \<le> 3080 * eps" and "\<bar>h\<bar> \<le> 5"
  shows "\<bar>double (H * 60) - 60 * h\<bar> \<le> 1 / 10 ^ 9"
proof -
  have "\<bar>(60::real) - 60\<bar> \<le> 0" "\<bar>60::real\<bar> \<le> 60" by simp_all
  from mult_close [OF assms(1) this(1) assms(2) this(2)]
  have m: "\<bar>H * 60 - h * 60\<bar> \<le> 184800 * eps" by simp
  have "\<bar>y * 60\<bar> \<le> 300" if "\<bar>y\<bar> \<le> 5" for y :: real using that by linarith
  from this [OF assms(2)] have "\<bar>h * 60\<bar> \<le> 300" .
  moreover have "184800 * eps \<le> 1" using eps_bounds by linarith
  ultimately have "\<bar>double (H * 60) - h * 60\<bar> \<le> 184800 * eps + (300 + 1) * eps"
    using m by (intro double_close)
  moreover have "184800 * eps + (300 + 1) * eps \<le> 1 / 10 ^ 9"
    using eps_tiny [of 185101] by simp
  ultimately have "\<bar>double (H * 60) - h * 60\<bar> \<le> 1 / 10 ^ 9" by (rule order_trans)
  then show ?thesis by (simp add: mult.commute)
qed

lemma rgbToHsv_close:
  fixes r g b M m :: int
  assumes rng: "0 \<le> r" "r \<le> 255" "0 \<le> g" "g \<le> 255" "0 \<le> b" "b \<le> 255"
    and M: "M = max r (max g b)" and m: "m = min r (min g b)" and lt: "m < M"
  shows "\<exists>h60 s255.
           rgbToHsv (real_of_int r) (real_of_int g) (real_of_int b)
             = (if js_round h60 < 0 then js_round h60 + 360 else js_round h60, js_round s255, M)
         \<and> \<bar>h60 - 60 * (if M = r then (real_of_int g - real_of_int b) / (real_of_int M - real_of_int m)
                         else if M = g
                           then (real_of_int b - real_of_int r) / (real_of_int M - real_of_int m) + 2
                         else (real_of_int r - real_of_int g) / (real_of_int M - real_of_int m) + 4)\<bar>
             \<le> 1 / 10 ^ 9
         \<and> \<bar>s255 - (real_of_int M - real_of_int m) / real_of_int M * 255\<bar> \<le> 1 / 10 ^ 9"
proof -
  define cr where "cr = double (real_of_int r / 255)"
  define cg where "cg = double (real_of_int g / 255)"
  define cb where "cb = double (real_of_int b / 255)"
  define cM where "cM = double (real_of_int M / 255)"
  define cm where "cm = double (real_of_int m / 255)"
  define D where "D = double (cM - cm)"
  define Q where "Q = (\<lambda>x y. double (double (x - y) / D))"
  define H where "H = (if M = r then js_rem (Q cg cb) 6
                       else if M = g then double (Q cb cr + 2) else double (Q cr cg + 4))"
  define h60 where "h60 = double (H * 60)"
  define s255 where "s255 = double (double (D / cM) * 255)"
  let ?d = "real_of_int M - real_of_int m"
  have Mr: "0 \<le> M" "M \<le> 255" "0 \<le> m" "m \<le> 255"
    using rng unfolding M m by (simp_all add: max_def min_def)
  have ord: "m \<le> r" "r \<le> M" "m \<le> g" "g \<le> M" "m \<le> b" "b \<le> M"
    unfolding M m by (simp_all add: max_def min_def)
  have mx: "max cr (max cg cb) = cM"
    unfolding cr_def cg_def cb_def cM_def M by (rule channel_max(1) [OF rng])
  have mn: "min cr (min cg cb) = cm"
    unfolding cr_def cg_def cb_def cm_def m by (rule channel_max(2) [OF rng])
  have "cM \<noteq> cm"
    unfolding cM_def cm_def using channel_eq_iff [OF Mr] lt by simp
  then have Dn: "(D \<noteq> 0) = True" unfolding D_def double_eq_0_iff by simp
  have "real_of_int M / 255 \<noteq> 0" using lt Mr by simp
  then have z: "(cM = 0) = False" unfolding cM_def double_eq_0_iff by simp
  have er: "(cM = cr) = (M = r)"
    unfolding cM_def cr_def using channel_eq_iff [OF Mr(1,2) rng(1,2)] .
  have eg: "(cM = cg) = (M = g)"
    unfolding cM_def cg_def using channel_eq_iff [OF Mr(1,2) rng(3,4)] .
  have V: "js_round (double (cM * 255)) = M"
    unfolding cM_def using Mr by (intro value_exact) simp_all
  have eq: "rgbToHsv (real_of_int r) (real_of_int g) (real_of_int b)
              = (if js_round h60 < 0 then js_round h60 + 360 else js_round h60, js_round s255, M)"
    unfolding rgbToHsv_def Let_def cr_def [symmetric] cg_def [symmetric] cb_def [symmetric] mx mn
      D_def [symmetric] Dn z er eg V if_True if_False
    unfolding h60_def H_def s255_def Q_def ..
  have S: "\<bar>s255 - ?d / real_of_int M * 255\<bar> \<le> 1 / 10 ^ 9"
    unfolding s255_def D_def cM_def cm_def using Mr lt by (intro saturation_close) simp_all
  have Qc: "\<bar>Q (double (real_of_int p / 255)) (double (real_of_int q / 255))
              - (real_of_int p - real_of_int q) / ?d\<bar> \<le> 3074 * eps
            \<and> \<bar>(real_of_int p - real_of_int q) / ?d\<bar> \<le> 1"
    if "m \<le> p" "p \<le> M" "m \<le> q" "q \<le> M" for p q
  proof -
    have a: "\<bar>p - q\<bar> \<le> M - m" using that by linarith
    have "0 \<le> p" "p \<le> 255" "0 \<le> q" "q \<le> 255" using that Mr by linarith+
    from quotient_close [OF this Mr(3) lt Mr(2) a]
    have 1: "\<bar>Q (double (real_of_int p / 255)) (double (real_of_int q / 255))
              - (real_of_int p - real_of_int q) / ?d\<bar> \<le> 3074 * eps"
      unfolding Q_def D_def cM_def cm_def .
    have "\<bar>real_of_int p - real_of_int q\<bar> \<le> ?d" using a by linarith
    moreover have "0 < ?d" using lt by simp
    ultimately have 2: "\<bar>(real_of_int p - real_of_int q) / ?d\<bar> \<le> 1" by (simp add: field_simps)
    show ?thesis using 1 2 by blast
  qed
  have Hc: "\<bar>h60 - 60 * (if M = r then (real_of_int g - real_of_int b) / ?d
                         else if M = g then (real_of_int b - real_of_int r) / ?d + 2
                         else (real_of_int r - real_of_int g) / ?d + 4)\<bar> \<le> 1 / 10 ^ 9"
  proof -
    consider "M = r" | "M \<noteq> r" "M = g" | "M \<noteq> r" "M \<noteq> g" by blast
    then show ?thesis
    proof cases
      case 1
      define t where "t = (real_of_int g - real_of_int b) / ?d"
      from Qc [OF ord(3,4,5,6)] have q: "\<bar>Q cg cb - t\<bar> \<le> 3074 * eps" "\<bar>t\<bar> \<le> 1"
        unfolding cg_def cb_def t_def by simp_all
      then have "\<bar>Q cg cb\<bar> < 6" using eps_bounds by linarith
      then have "js_rem (Q cg cb) 6 = Q cg cb" by (rule js_rem_small)
      then have H: "H = Q cg cb" unfolding H_def using 1 by simp
      have "\<bar>H - t\<bar> \<le> 3080 * eps" "\<bar>t\<bar> \<le> 5" unfolding H using q eps_bounds by linarith+
      from scale60_close [OF this] show ?thesis unfolding h60_def t_def using 1 by simp
    next
      case 2
      define t where "t = (real_of_int b - real_of_int r) / ?d"
      from Qc [OF ord(5,6,1,2)] have q: "\<bar>Q cb cr - t\<bar> \<le> 3074 * eps" "\<bar>t\<bar> \<le> 1"
        unfolding cr_def cb_def t_def by simp_all
      have H: "H = double (Q cb cr + 2)" unfolding H_def using 2 by simp
      have "\<bar>H - (t + 2)\<bar> \<le> 3080 * eps" unfolding H using q by (intro shift_close) simp_all
      moreover have "\<bar>t + 2\<bar> \<le> 5" using q(2) by linarith
      ultimately show ?thesis
        using scale60_close [of H "t + 2"] unfolding h60_def t_def using 2 by simp
    next
      case 3
      define t where "t = (real_of_int r - real_of_int g) / ?d"
      from Qc [OF ord(1,2,3,4)] have q: "\<bar>Q cr cg - t\<bar> \<le> 3074 * eps" "\<bar>t\<bar> \<le> 1"
        unfolding cr_def cg_def t_def by simp_all
      have H: "H = double (Q cr cg + 4)" unfolding H_def using 3 by simp
      have "\<bar>H - (t + 4)\<bar> \<le> 3080 * eps" unfolding H using q by (intro shift_close) simp_all
      moreover have "\<bar>t + 4\<bar> \<le> 5" using q(2) by linarith
      ultimately show ?thesis
        using scale60_close [of H "t + 4"] unfolding h60_def t_def using 3 by simp
    qed
  qed
  show ?thesis using eq Hc S by blast
qed

lemma hue_round_up:
  assumes "0 \<le> t" "t \<le> 1" and "\<bar>x - 60 * (real_of_int k + t)\<bar> \<le> e" and "0 \<le> e" "e \<le> 1 / 4"
  shows "\<exists>t'. real_of_int (js_round x) = 60 * (real_of_int k + t')
            \<and> 0 \<le> t' \<and> t' \<le> 1 \<and> \<bar>t' - t\<bar> \<le> 1 / 120 + e / 60
            \<and> (0 \<le> js_round x \<longleftrightarrow> 0 \<le> real_of_int k + t')"
proof -
  define y where "y = x - real_of_int (60 * k)"
  let ?n = "js_round y"
  have "x = real_of_int (60 * k) + y" by (simp add: y_def)
  then have r: "js_round x = 60 * k + ?n" using js_round_shift [of "60 * k" y] by simp
  have yc: "\<bar>y - 60 * t\<bar> \<le> e" using assms(3) by (simp add: y_def algebra_simps)
  have lo: "0 \<le> ?n" unfolding js_round_def using yc assms by linarith
  have hi: "?n \<le> 60" unfolding js_round_def using yc assms by linarith
  have near: "\<bar>real_of_int ?n - y\<bar> \<le> 1 / 2" by (rule js_round_near)
  show ?thesis
  proof (intro exI [of _ "real_of_int ?n / 60"] conjI)
    show "real_of_int (js_round x) = 60 * (real_of_int k + real_of_int ?n / 60)"
      unfolding r by simp
    show "0 \<le> real_of_int ?n / 60" using lo by simp
    show "real_of_int ?n / 60 \<le> 1" using hi by simp
    have "\<bar>real_of_int ?n - 60 * t\<bar> \<le> 1 / 2 + e" using near yc by linarith
    then show "\<bar>real_of_int ?n / 60 - t\<bar> \<le> 1 / 120 + e / 60" by (simp add: field_simps abs_le_iff)
    have "0 \<le> 60 * k + ?n \<longleftrightarrow> 0 \<le> real_of_int (60 * k + ?n)" by linarith
    also have "\<dots> \<longleftrightarrow> 0 \<le> real_of_int k + real_of_int ?n / 60" by (simp add: field_simps)
    finally show "0 \<le> js_round x \<longleftrightarrow> 0 \<le> real_of_int k + real_of_int ?n / 60"
      unfolding r .
  qed
qed

lemma hue_round_down:
  assumes "0 \<le> t" "t \<le> 1" and "\<bar>x - 60 * (real_of_int k - t)\<bar> \<le> e" and "0 \<le> e" "e \<le> 1 / 4"
  shows "\<exists>t'. real_of_int (js_round x) = 60 * (real_of_int k - t')
            \<and> 0 \<le> t' \<and> t' \<le> 1 \<and> \<bar>t' - t\<bar> \<le> 1 / 120 + e / 60
            \<and> (js_round x < 60 * k \<longleftrightarrow> 0 < t')"
proof -
  define y where "y = x - real_of_int (60 * k)"
  let ?n = "- js_round y"
  have "x = real_of_int (60 * k) + y" by (simp add: y_def)
  then have r: "js_round x = 60 * k - ?n" using js_round_shift [of "60 * k" y] by simp
  have yc: "\<bar>y + 60 * t\<bar> \<le> e" using assms(3) by (simp add: y_def algebra_simps)
  have lo: "0 \<le> ?n" unfolding js_round_def using yc assms by linarith
  have hi: "?n \<le> 60" unfolding js_round_def using yc assms by linarith
  have near: "\<bar>real_of_int (js_round y) - y\<bar> \<le> 1 / 2" by (rule js_round_near)
  show ?thesis
  proof (intro exI [of _ "real_of_int ?n / 60"] conjI)
    show "real_of_int (js_round x) = 60 * (real_of_int k - real_of_int ?n / 60)"
      unfolding r by simp
    show "0 \<le> real_of_int ?n / 60" using lo by simp
    show "real_of_int ?n / 60 \<le> 1" using hi by simp
    have "real_of_int ?n = - real_of_int (js_round y)" by simp
    then have "\<bar>real_of_int ?n - 60 * t\<bar> \<le> 1 / 2 + e" using near yc by linarith
    then show "\<bar>real_of_int ?n / 60 - t\<bar> \<le> 1 / 120 + e / 60" by (simp add: field_simps abs_le_iff)
    show "js_round x < 60 * k \<longleftrightarrow> 0 < real_of_int ?n / 60"
      unfolding r using lo by simp
  qed
qed

lemma channel_error:
  fixes V d C t t' e :: real
  assumes "0 \<le> d" and "\<bar>C - d\<bar> \<le> e" and "0 \<le> t'" and "t' \<le> 1" and "\<bar>t' - t\<bar> \<le> u"
  shows "\<bar>(V - C + C * t') - (V - d + d * t)\<bar> \<le> e + d * u"
    and "\<bar>(V - C) - (V - d)\<bar> \<le> e"
proof -
  have split: "(V - C + C * t') - (V - d + d * t) = (d - C) * (1 - t') + d * (t' - t)"
    by (simp add: algebra_simps)
  have "\<bar>(d - C) * (1 - t')\<bar> = \<bar>d - C\<bar> * (1 - t')"
    using assms(4) by (simp add: abs_mult)
  also have "\<dots> \<le> \<bar>d - C\<bar> * 1"
    using assms(3) by (intro mult_left_mono) simp_all
  finally have a: "\<bar>(d - C) * (1 - t')\<bar> \<le> e" using assms(2) by (simp add: abs_minus_commute)
  have "\<bar>d * (t' - t)\<bar> = d * \<bar>t' - t\<bar>" using assms(1) by (simp add: abs_mult)
  also have "\<dots> \<le> d * u" using assms(1,5) by (intro mult_left_mono) simp_all
  finally have b: "\<bar>d * (t' - t)\<bar> \<le> d * u" .
  show "\<bar>(V - C + C * t') - (V - d + d * t)\<bar> \<le> e + d * u"
    unfolding split using a b by linarith
  show "\<bar>(V - C) - (V - d)\<bar> \<le> e" using assms(2) by (simp add: abs_minus_commute)
qed

lemma product_bound:
  fixes a b :: real
  assumes "0 \<le> a" "0 \<le> b" "a + b \<le> 15"
  shows "a * b \<le> 225 / 4"
proof -
  have "0 \<le> (a - b)\<^sup>2" by simp
  then have "4 * (a * b) \<le> (a + b)\<^sup>2" by (simp add: power2_eq_square algebra_simps)
  also have "\<dots> \<le> 15\<^sup>2" using assms by (intro power_mono) simp_all
  finally show ?thesis by simp
qed

lemma chroma_bound:
  fixes V d :: int and x e :: real
  assumes "0 < d" "d \<le> V" "V \<le> 255"
    and "\<bar>x - real_of_int d / real_of_int V * 255\<bar> \<le> e" and "0 \<le> e" and "e \<le> 1 / 1000000"
  shows "\<bar>real_of_int V * real_of_int (js_round x) / 255 - real_of_int d\<bar>
           + real_of_int d * (1 / 120 + e / 60) < 5 / 2"
proof -
  let ?V = "real_of_int V" and ?d = "real_of_int d"
  define x0 where "x0 = ?d / ?V * 255"
  define s where "s = real_of_int (js_round x)"
  define c where "c = \<bar>s - x0\<bar>"
  have V: "0 < ?V" "?V \<le> 255" using assms by simp_all
  have xc: "\<bar>x - x0\<bar> \<le> e" using assms(4) by (simp add: x0_def)
  have eq: "?V * s / 255 - ?d = ?V / 255 * (s - x0)" using V by (simp add: x0_def field_simps)
  have "\<bar>?V / 255 * (s - x0)\<bar> = \<bar>?V / 255\<bar> * \<bar>s - x0\<bar>" by (rule abs_mult)
  also have "\<bar>?V / 255\<bar> = ?V / 255" using V by simp
  finally have C: "\<bar>?V * s / 255 - ?d\<bar> = ?V / 255 * c"
    unfolding eq c_def .
  have c0: "0 \<le> c" by (simp add: c_def)
  define p where "p = ?d * e"
  have "p \<le> 255 * e" unfolding p_def using assms by (intro mult_right_mono) simp_all
  moreover have "?d * (1 / 120 + e / 60) = ?d / 120 + p / 60"
    unfolding p_def by (simp add: algebra_simps)
  ultimately have de: "?d * (1 / 120 + e / 60) \<le> ?d / 120 + 5 * e"
    using assms(5) by linarith
  show ?thesis
  proof (cases "d \<le> 239")
    case True
    have "c \<le> 1 / 2 + e" unfolding c_def s_def using js_round_near [of x] xc by linarith
    then have "?V / 255 * c \<le> 1 * (1 / 2 + e)"
      using V c0 by (intro mult_mono) simp_all
    then have "\<bar>?V * s / 255 - ?d\<bar> \<le> 1 / 2 + e" using C by simp
    moreover have "?d / 120 \<le> 239 / 120" using True by simp
    ultimately show ?thesis unfolding s_def using de assms(5,6) by linarith
  next
    case False
    let ?j = "real_of_int (V - d)"
    let ?n = "255 - (V - d)"
    define w where "w = ?j * (255 - ?V) / 255"
    have j: "0 \<le> ?j" "0 \<le> 255 - ?V" "?j + (255 - ?V) \<le> 15"
      using assms False by simp_all
    have a: "real_of_int ?n - x0 = ?j * (255 - ?V) / ?V" using V by (simp add: x0_def field_simps)
    have b: "0 \<le> ?j * (255 - ?V) / ?V" using j V by simp
    have n0: "\<bar>real_of_int ?n - x0\<bar> = ?j * (255 - ?V) / ?V"
      unfolding a using b by (rule abs_of_nonneg)
    have "\<bar>s - x\<bar> \<le> \<bar>real_of_int ?n - x\<bar>"
      unfolding s_def by (rule js_round_nearest)
    then have "c \<le> \<bar>real_of_int ?n - x0\<bar> + 2 * e" unfolding c_def using xc by linarith
    then have cb: "c \<le> ?j * (255 - ?V) / ?V + 2 * e" unfolding n0 .
    define J where "J = ?j * (255 - ?V)"
    have "?V / 255 * c \<le> ?V / 255 * (J / ?V + 2 * e)"
      unfolding J_def using V cb by (intro mult_left_mono) simp_all
    also have "\<dots> = J / 255 + ?V / 255 * (2 * e)" using V by (simp add: field_simps)
    also have "\<dots> = w + ?V / 255 * (2 * e)" by (simp add: w_def J_def)
    also have "\<dots> \<le> w + 1 * (2 * e)"
      using V assms(5) by (intro add_left_mono mult_right_mono) simp_all
    finally have 1: "\<bar>?V * s / 255 - ?d\<bar> \<le> w + 2 * e" using C by simp
    have "w \<le> (225 / 4) / 255"
      unfolding w_def using product_bound [OF j] by (intro divide_right_mono) simp_all
    then have 2: "w \<le> 1 / 4" by simp
    have "?d / 120 \<le> 255 / 120" using assms by simp
    then show ?thesis unfolding s_def [symmetric] using 1 2 de assms(5,6) by linarith
  qed
qed

lemma roundtrip_core:
  fixes V d :: int and t t' x e :: real
  assumes "0 < d" "d \<le> V" "V \<le> 255" "0 \<le> t'" "t' \<le> 1" "\<bar>t' - t\<bar> \<le> 1 / 120 + e / 60"
    and "\<bar>x - real_of_int d / real_of_int V * 255\<bar> \<le> e" and "0 \<le> e" and "e \<le> 1 / 1000000"
    and "C = real_of_int V * real_of_int (js_round x) / 255"
  shows "\<bar>(real_of_int V - C + C * t') - (real_of_int V - real_of_int d + real_of_int d * t)\<bar> < 5 / 2"
    and "\<bar>(real_of_int V - C) - (real_of_int V - real_of_int d)\<bar> < 5 / 2"
proof -
  have d: "0 \<le> real_of_int d" using assms(1) by simp
  have b: "\<bar>C - real_of_int d\<bar> + real_of_int d * (1 / 120 + e / 60) < 5 / 2"
    unfolding assms(10) using chroma_bound [OF assms(1-3) assms(7-9)] .
  have "0 \<le> real_of_int d * (1 / 120 + e / 60)" using d assms(8) by simp
  with channel_error [where d = "real_of_int d" and C = C and e = "\<bar>C - real_of_int d\<bar>"
      and V = "real_of_int V" and t = t and t' = t' and u = "1 / 120 + e / 60",
      OF d order_refl assms(4-6)] b
  show "\<bar>(real_of_int V - C + C * t') - (real_of_int V - real_of_int d + real_of_int d * t)\<bar> < 5 / 2"
    and "\<bar>(real_of_int V - C) - (real_of_int V - real_of_int d)\<bar> < 5 / 2"
    by linarith+
qed

lemma tolerance: "(0::real) \<le> 1 / 10 ^ 9" "(1::real) / 10 ^ 9 \<le> 1 / 1000000" "(1::real) / 10 ^ 9 \<le> 1 / 4"
  by simp_all

lemma roundtrip_sector0:
  fixes r g b :: int
  assumes "0 \<le> b" "b \<le> g" "g \<le> r" "b < r" "r \<le> 255"
  shows "case rgbToHsv (real_of_int r) (real_of_int g) (real_of_int b) of
           (h, s, v) \<Rightarrow> near_triple (hsvToRgb (real_of_int h) (real_of_int s) (real_of_int v)) r g b"
proof -
  let ?R = "real_of_int r" and ?G = "real_of_int g" and ?B = "real_of_int b"
  let ?V = "?R"
  let ?d = "?R - ?B"
  let ?t = "(?G - ?B) / ?d"
  have rng: "0 \<le> r" "r \<le> 255" "0 \<le> g" "g \<le> 255" "0 \<le> b" "b \<le> 255"
    using assms by simp_all
  have Mm: "r = max r (max g b)" "b = min r (min g b)" and lt: "b < r"
    using assms by (simp_all add: max_def min_def)
  have d: "0 < ?d" using assms by simp
  have t: "0 \<le> ?t" "?t \<le> 1" using assms d by (simp_all add: field_simps)
  have raw: "(if r = r then (?G - ?B) / ?d else if r = g then (?B - ?R) / ?d + 2 else (?R - ?G) / ?d + 4) = real_of_int 0 + ?t"
    using assms d by (simp add: field_simps)
  from rgbToHsv_close [OF rng Mm lt]
  obtain h60 s255 where
    hsv0: "rgbToHsv ?R ?G ?B
             = (if js_round h60 < 0 then js_round h60 + 360 else js_round h60, js_round s255, r)"
    and hc0: "\<bar>h60 - 60 * (if r = r then (?G - ?B) / ?d else if r = g then (?B - ?R) / ?d + 2 else (?R - ?G) / ?d + 4)\<bar> \<le> 1 / 10 ^ 9"
    and sc: "\<bar>s255 - ?d / ?V * 255\<bar> \<le> 1 / 10 ^ 9"
    by blast
  let ?s = "js_round s255"
  let ?C = "?V * real_of_int ?s / 255"
  let ?h1 = "js_round h60"
  have hc: "\<bar>h60 - 60 * (real_of_int 0 + ?t)\<bar> \<le> 1 / 10 ^ 9"
    using hc0 unfolding raw .
  from hue_round_up [OF t hc tolerance(1,3)]
  obtain t' where t': "real_of_int ?h1 = 60 * (real_of_int 0 + t')"
    "0 \<le> t'" "t' \<le> 1" "\<bar>t' - ?t\<bar> \<le> 1 / 120 + 1 / 10 ^ 9 / 60"
    by blast
  have "0 \<le> real_of_int ?h1"
    unfolding t'(1) using t'(2,3) by simp
  then have neg: "(?h1 < 0) = False" by simp
  have hsv: "rgbToHsv ?R ?G ?B = (?h1, ?s, r)"
    unfolding hsv0 neg if_False ..
  have inv: "hsvToRgb (real_of_int ?h1) (real_of_int ?s) ?V = (?V, ?V - ?C + ?C * t', ?V - ?C)"
    unfolding t'(1) using sector_up0 [OF t'(2,3), of "real_of_int ?s" ?V] by (simp add: mult.commute)
  have mid: "?G = ?V - ?d + ?d * ?t" and low: "?B = ?V - ?d" using d by (simp_all add: field_simps)
  have "0 < r - b" "r - b \<le> r" "r \<le> 255" using assms by simp_all
  from roundtrip_core [where d = "r - b" and V = r and t' = t' and t = "?t" and x = s255
      and e = "1 / 10 ^ 9" and C = "?C", unfolded of_int_diff, OF this t'(2-4) sc tolerance(1,2) refl]
  have "\<bar>(?V - ?C + ?C * t') - ?G\<bar> < 5 / 2" "\<bar>(?V - ?C) - ?B\<bar> < 5 / 2"
    using mid low by simp_all
  then have "near_triple (?V, ?V - ?C + ?C * t', ?V - ?C) r g b"
    unfolding near_triple_def prod.case by simp
  then show ?thesis unfolding hsv prod.case inv .
qed

lemma roundtrip_sector2:
  fixes r g b :: int
  assumes "0 \<le> r" "r \<le> b" "b \<le> g" "r < g" "g \<le> 255"
  shows "case rgbToHsv (real_of_int r) (real_of_int g) (real_of_int b) of
           (h, s, v) \<Rightarrow> near_triple (hsvToRgb (real_of_int h) (real_of_int s) (real_of_int v)) r g b"
proof -
  let ?R = "real_of_int r" and ?G = "real_of_int g" and ?B = "real_of_int b"
  let ?V = "?G"
  let ?d = "?G - ?R"
  let ?t = "(?B - ?R) / ?d"
  have rng: "0 \<le> r" "r \<le> 255" "0 \<le> g" "g \<le> 255" "0 \<le> b" "b \<le> 255"
    using assms by simp_all
  have Mm: "g = max r (max g b)" "r = min r (min g b)" and lt: "r < g"
    using assms by (simp_all add: max_def min_def)
  have d: "0 < ?d" using assms by simp
  have t: "0 \<le> ?t" "?t \<le> 1" using assms d by (simp_all add: field_simps)
  have raw: "(if g = r then (?G - ?B) / ?d else if g = g then (?B - ?R) / ?d + 2 else (?R - ?G) / ?d + 4) = real_of_int 2 + ?t"
    using assms d by (simp add: field_simps)
  from rgbToHsv_close [OF rng Mm lt]
  obtain h60 s255 where
    hsv0: "rgbToHsv ?R ?G ?B
             = (if js_round h60 < 0 then js_round h60 + 360 else js_round h60, js_round s255, g)"
    and hc0: "\<bar>h60 - 60 * (if g = r then (?G - ?B) / ?d else if g = g then (?B - ?R) / ?d + 2 else (?R - ?G) / ?d + 4)\<bar> \<le> 1 / 10 ^ 9"
    and sc: "\<bar>s255 - ?d / ?V * 255\<bar> \<le> 1 / 10 ^ 9"
    by blast
  let ?s = "js_round s255"
  let ?C = "?V * real_of_int ?s / 255"
  let ?h1 = "js_round h60"
  have hc: "\<bar>h60 - 60 * (real_of_int 2 + ?t)\<bar> \<le> 1 / 10 ^ 9"
    using hc0 unfolding raw .
  from hue_round_up [OF t hc tolerance(1,3)]
  obtain t' where t': "real_of_int ?h1 = 60 * (real_of_int 2 + t')"
    "0 \<le> t'" "t' \<le> 1" "\<bar>t' - ?t\<bar> \<le> 1 / 120 + 1 / 10 ^ 9 / 60"
    by blast
  have "0 \<le> real_of_int ?h1"
    unfolding t'(1) using t'(2,3) by simp
  then have neg: "(?h1 < 0) = False" by simp
  have hsv: "rgbToHsv ?R ?G ?B = (?h1, ?s, g)"
    unfolding hsv0 neg if_False ..
  have inv: "hsvToRgb (real_of_int ?h1) (real_of_int ?s) ?V = (?V - ?C, ?V, ?V - ?C + ?C * t')"
    unfolding t'(1) using sector_up2 [OF t'(2,3), of "real_of_int ?s" ?V] by (simp add: mult.commute)
  have mid: "?B = ?V - ?d + ?d * ?t" and low: "?R = ?V - ?d" using d by (simp_all add: field_simps)
  have "0 < g - r" "g - r \<le> g" "g \<le> 255" using assms by simp_all
  from roundtrip_core [where d = "g - r" and V = g and t' = t' and t = "?t" and x = s255
      and e = "1 / 10 ^ 9" and C = "?C", unfolded of_int_diff, OF this t'(2-4) sc tolerance(1,2) refl]
  have "\<bar>(?V - ?C + ?C * t') - ?B\<bar> < 5 / 2" "\<bar>(?V - ?C) - ?R\<bar> < 5 / 2"
    using mid low by simp_all
  then have "near_triple (?V - ?C, ?V, ?V - ?C + ?C * t') r g b"
    unfolding near_triple_def prod.case by simp
  then show ?thesis unfolding hsv prod.case inv .
qed

lemma roundtrip_sector1:
  fixes r g b :: int
  assumes "0 \<le> b" "b < r" "r < g" "g \<le> 255"
  shows "case rgbToHsv (real_of_int r) (real_of_int g) (real_of_int b) of
           (h, s, v) \<Rightarrow> near_triple (hsvToRgb (real_of_int h) (real_of_int s) (real_of_int v)) r g b"
proof -
  let ?R = "real_of_int r" and ?G = "real_of_int g" and ?B = "real_of_int b"
  let ?V = "?G"
  let ?d = "?G - ?B"
  let ?t = "(?R - ?B) / ?d"
  have rng: "0 \<le> r" "r \<le> 255" "0 \<le> g" "g \<le> 255" "0 \<le> b" "b \<le> 255"
    using assms by simp_all
  have Mm: "g = max r (max g b)" "b = min r (min g b)" and lt: "b < g"
    using assms by (simp_all add: max_def min_def)
  have d: "0 < ?d" using assms by simp
  have t: "0 \<le> ?t" "?t \<le> 1" using assms d by (simp_all add: field_simps)
  have raw: "(if g = r then (?G - ?B) / ?d else if g = g then (?B - ?R) / ?d + 2 else (?R - ?G) / ?d + 4) = real_of_int 2 - ?t"
    using assms d by (simp add: field_simps)
  from rgbToHsv_close [OF rng Mm lt]
  obtain h60 s255 where
    hsv0: "rgbToHsv ?R ?G ?B
             = (if js_round h60 < 0 then js_round h60 + 360 else js_round h60, js_round s255, g)"
    and hc0: "\<bar>h60 - 60 * (if g = r then (?G - ?B) / ?d else if g = g then (?B - ?R) / ?d + 2 else (?R - ?G) / ?d + 4)\<bar> \<le> 1 / 10 ^ 9"
    and sc: "\<bar>s255 - ?d / ?V * 255\<bar> \<le> 1 / 10 ^ 9"
    by blast
  let ?s = "js_round s255"
  let ?C = "?V * real_of_int ?s / 255"
  let ?h1 = "js_round h60"
  have hc: "\<bar>h60 - 60 * (real_of_int 2 - ?t)\<bar> \<le> 1 / 10 ^ 9"
    using hc0 unfolding raw .
  from hue_round_down [OF t hc tolerance(1,3)]
  obtain t' where t': "real_of_int ?h1 = 60 * (real_of_int 2 - t')"
    "0 \<le> t'" "t' \<le> 1" "\<bar>t' - ?t\<bar> \<le> 1 / 120 + 1 / 10 ^ 9 / 60"
    by blast
  have "0 \<le> real_of_int ?h1"
    unfolding t'(1) using t'(2,3) by simp
  then have neg: "(?h1 < 0) = False" by simp
  have hsv: "rgbToHsv ?R ?G ?B = (?h1, ?s, g)"
    unfolding hsv0 neg if_False ..
  have inv: "hsvToRgb (real_of_int ?h1) (real_of_int ?s) ?V = (?V - ?C + ?C * t', ?V, ?V - ?C)"
    unfolding t'(1) using sector_down2 [OF t'(2,3), of "real_of_int ?s" ?V] by (simp add: mult.commute)
  have mid: "?R = ?V - ?d + ?d * ?t" and low: "?B = ?V - ?d" using d by (simp_all add: field_simps)
  have "0 < g - b" "g - b \<le> g" "g \<le> 255" using assms by simp_all
  from roundtrip_core [where d = "g - b" and V = g and t' = t' and t = "?t" and x = s255
      and e = "1 / 10 ^ 9" and C = "?C", unfolded of_int_diff, OF this t'(2-4) sc tolerance(1,2) refl]
  have "\<bar>(?V - ?C + ?C * t') - ?R\<bar> < 5 / 2" "\<bar>(?V - ?C) - ?B\<bar> < 5 / 2"
    using mid low by simp_all
  then have "near_triple (?V - ?C + ?C * t', ?V, ?V - ?C) r g b"
    unfolding near_triple_def prod.case by simp
  then show ?thesis unfolding hsv prod.case inv .
qed

lemma roundtrip_sector4:
  fixes r g b :: int
  assumes "0 \<le> g" "g \<le> r" "r < b" "b \<le> 255"
  shows "case rgbToHsv (real_of_int r) (real_of_int g) (real_of_int b) of
           (h, s, v) \<Rightarrow> near_triple (hsvToRgb (real_of_int h) (real_of_int s) (real_of_int v)) r g b"
proof -
  let ?R = "real_of_int r" and ?G = "real_of_int g" and ?B = "real_of_int b"
  let ?V = "?B"
  let ?d = "?B - ?G"
  let ?t = "(?R - ?G) / ?d"
  have rng: "0 \<le> r" "r \<le> 255" "0 \<le> g" "g \<le> 255" "0 \<le> b" "b \<le> 255"
    using assms by simp_all
  have Mm: "b = max r (max g b)" "g = min r (min g b)" and lt: "g < b"
    using assms by (simp_all add: max_def min_def)
  have d: "0 < ?d" using assms by simp
  have t: "0 \<le> ?t" "?t \<le> 1" using assms d by (simp_all add: field_simps)
  have raw: "(if b = r then (?G - ?B) / ?d else if b = g then (?B - ?R) / ?d + 2 else (?R - ?G) / ?d + 4) = real_of_int 4 + ?t"
    using assms d by (simp add: field_simps)
  from rgbToHsv_close [OF rng Mm lt]
  obtain h60 s255 where
    hsv0: "rgbToHsv ?R ?G ?B
             = (if js_round h60 < 0 then js_round h60 + 360 else js_round h60, js_round s255, b)"
    and hc0: "\<bar>h60 - 60 * (if b = r then (?G - ?B) / ?d else if b = g then (?B - ?R) / ?d + 2 else (?R - ?G) / ?d + 4)\<bar> \<le> 1 / 10 ^ 9"
    and sc: "\<bar>s255 - ?d / ?V * 255\<bar> \<le> 1 / 10 ^ 9"
    by blast
  let ?s = "js_round s255"
  let ?C = "?V * real_of_int ?s / 255"
  let ?h1 = "js_round h60"
  have hc: "\<bar>h60 - 60 * (real_of_int 4 + ?t)\<bar> \<le> 1 / 10 ^ 9"
    using hc0 unfolding raw .
  from hue_round_up [OF t hc tolerance(1,3)]
  obtain t' where t': "real_of_int ?h1 = 60 * (real_of_int 4 + t')"
    "0 \<le> t'" "t' \<le> 1" "\<bar>t' - ?t\<bar> \<le> 1 / 120 + 1 / 10 ^ 9 / 60"
    by blast
  have "0 \<le> real_of_int ?h1"
    unfolding t'(1) using t'(2,3) by simp
  then have neg: "(?h1 < 0) = False" by simp
  have hsv: "rgbToHsv ?R ?G ?B = (?h1, ?s, b)"
    unfolding hsv0 neg if_False ..
  have inv: "hsvToRgb (real_of_int ?h1) (real_of_int ?s) ?V = (?V - ?C + ?C * t', ?V - ?C, ?V)"
    unfolding t'(1) using sector_up4 [OF t'(2,3), of "real_of_int ?s" ?V] by (simp add: mult.commute)
  have mid: "?R = ?V - ?d + ?d * ?t" and low: "?G = ?V - ?d" using d by (simp_all add: field_simps)
  have "0 < b - g" "b - g \<le> b" "b \<le> 255" using assms by simp_all
  from roundtrip_core [where d = "b - g" and V = b and t' = t' and t = "?t" and x = s255
      and e = "1 / 10 ^ 9" and C = "?C", unfolded of_int_diff, OF this t'(2-4) sc tolerance(1,2) refl]
  have "\<bar>(?V - ?C + ?C * t') - ?R\<bar> < 5 / 2" "\<bar>(?V - ?C) - ?G\<bar> < 5 / 2"
    using mid low by simp_all
  then have "near_triple (?V - ?C + ?C * t', ?V - ?C, ?V) r g b"
    unfolding near_triple_def prod.case by simp
  then show ?thesis unfolding hsv prod.case inv .
qed

lemma roundtrip_sector3:
  fixes r g b :: int
  assumes "0 \<le> r" "r < g" "g < b" "b \<le> 255"
  shows "case rgbToHsv (real_of_int r) (real_of_int g) (real_of_int b) of
           (h, s, v) \<Rightarrow> near_triple (hsvToRgb (real_of_int h) (real_of_int s) (real_of_int v)) r g b"
proof -
  let ?R = "real_of_int r" and ?G = "real_of_int g" and ?B = "real_of_int b"
  let ?V = "?B"
  let ?d = "?B - ?R"
  let ?t = "(?G - ?R) / ?d"
  have rng: "0 \<le> r" "r \<le> 255" "0 \<le> g" "g \<le> 255" "0 \<le> b" "b \<le> 255"
    using assms by simp_all
  have Mm: "b = max r (max g b)" "r = min r (min g b)" and lt: "r < b"
    using assms by (simp_all add: max_def min_def)
  have d: "0 < ?d" using assms by simp
  have t: "0 \<le> ?t" "?t \<le> 1" using assms d by (simp_all add: field_simps)
  have raw: "(if b = r then (?G - ?B) / ?d else if b = g then (?B - ?R) / ?d + 2 else (?R - ?G) / ?d + 4) = real_of_int 4 - ?t"
    using assms d by (simp add: field_simps)
  from rgbToHsv_close [OF rng Mm lt]
  obtain h60 s255 where
    hsv0: "rgbToHsv ?R ?G ?B
             = (if js_round h60 < 0 then js_round h60 + 360 else js_round h60, js_round s255, b)"
    and hc0: "\<bar>h60 - 60 * (if b = r then (?G - ?B) / ?d else if b = g then (?B - ?R) / ?d + 2 else (?R - ?G) / ?d + 4)\<bar> \<le> 1 / 10 ^ 9"
    and sc: "\<bar>s255 - ?d / ?V * 255\<bar> \<le> 1 / 10 ^ 9"
    by blast
  let ?s = "js_round s255"
  let ?C = "?V * real_of_int ?s / 255"
  let ?h1 = "js_round h60"
  have hc: "\<bar>h60 - 60 * (real_of_int 4 - ?t)\<bar> \<le> 1 / 10 ^ 9"
    using hc0 unfolding raw .
  from hue_round_down [OF t hc tolerance(1,3)]
  obtain t' where t': "real_of_int ?h1 = 60 * (real_of_int 4 - t')"
    "0 \<le> t'" "t' \<le> 1" "\<bar>t' - ?t\<bar> \<le> 1 / 120 + 1 / 10 ^ 9 / 60"
    by blast
  have "0 \<le> real_of_int ?h1"
    unfolding t'(1) using t'(2,3) by simp
  then have neg: "(?h1 < 0) = False" by simp
  have hsv: "rgbToHsv ?R ?G ?B = (?h1, ?s, b)"
    unfolding hsv0 neg if_False ..
  have inv: "hsvToRgb (real_of_int ?h1) (real_of_int ?s) ?V = (?V - ?C, ?V - ?C + ?C * t', ?V)"
    unfolding t'(1) using sector_down4 [OF t'(2,3), of "real_of_int ?s" ?V] by (simp add: mult.commute)
  have mid: "?G = ?V - ?d + ?d * ?t" and low: "?R = ?V - ?d" using d by (simp_all add: field_simps)
  have "0 < b - r" "b - r \<le> b" "b \<le> 255" using assms by simp_all
  from roundtrip_core [where d = "b - r" and V = b and t' = t' and t = "?t" and x = s255
      and e = "1 / 10 ^ 9" and C = "?C", unfolded of_int_diff, OF this t'(2-4) sc tolerance(1,2) refl]
  have "\<bar>(?V - ?C + ?C * t') - ?G\<bar> < 5 / 2" "\<bar>(?V - ?C) - ?R\<bar> < 5 / 2"
    using mid low by simp_all
  then have "near_triple (?V - ?C, ?V - ?C + ?C * t', ?V) r g b"
    unfolding near_triple_def prod.case by simp
  then show ?thesis unfolding hsv prod.case inv .
qed

lemma roundtrip_sector5:
  fixes r g b :: int
  assumes "0 \<le> g" "g < b" "b \<le> r" "r \<le> 255"
  shows "case rgbToHsv (real_of_int r) (real_of_int g) (real_of_int b) of
           (h, s, v) \<Rightarrow> near_triple (hsvToRgb (real_of_int h) (real_of_int s) (real_of_int v)) r g b"
proof -
  let ?R = "real_of_int r" and ?G = "real_of_int g" and ?B = "real_of_int b"
  let ?V = "?R"
  let ?d = "?R - ?G"
  let ?t = "(?B - ?G) / ?d"
  have rng: "0 \<le> r" "r \<le> 255" "0 \<le> g" "g \<le> 255" "0 \<le> b" "b \<le> 255"
    using assms by simp_all
  have Mm: "r = max r (max g b)" "g = min r (min g b)" and lt: "g < r"
    using assms by (simp_all add: max_def min_def)
  have d: "0 < ?d" using assms by simp
  have t: "0 \<le> ?t" "?t \<le> 1" using assms d by (simp_all add: field_simps)
  have raw: "(if r = r then (?G - ?B) / ?d else if r = g then (?B - ?R) / ?d + 2 else (?R - ?G) / ?d + 4) = real_of_int 0 - ?t"
    using assms d by (simp add: field_simps)
  from rgbToHsv_close [OF rng Mm lt]
  obtain h60 s255 where
    hsv0: "rgbToHsv ?R ?G ?B
             = (if js_round h60 < 0 then js_round h60 + 360 else js_round h60, js_round s255, r)"
    and hc0: "\<bar>h60 - 60 * (if r = r then (?G - ?B) / ?d else if r = g then (?B - ?R) / ?d + 2 else (?R - ?G) / ?d + 4)\<bar> \<le> 1 / 10 ^ 9"
    and sc: "\<bar>s255 - ?d / ?V * 255\<bar> \<le> 1 / 10 ^ 9"
    by blast
  let ?s = "js_round s255"
  let ?C = "?V * real_of_int ?s / 255"
  let ?h1 = "js_round h60"
  have hc: "\<bar>h60 - 60 * (real_of_int 0 - ?t)\<bar> \<le> 1 / 10 ^ 9"
    using hc0 unfolding raw .
  from hue_round_down [OF t hc tolerance(1,3)]
  obtain t' where t': "real_of_int ?h1 = 60 * (real_of_int 0 - t')"
    "0 \<le> t'" "t' \<le> 1" "\<bar>t' - ?t\<bar> \<le> 1 / 120 + 1 / 10 ^ 9 / 60" "?h1 < 60 * 0 \<longleftrightarrow> 0 < t'"
    by blast
  have hsv: "rgbToHsv ?R ?G ?B = (if ?h1 < 0 then ?h1 + 360 else ?h1, ?s, r)"
    by (rule hsv0)
  have inv: "hsvToRgb (real_of_int (if ?h1 < 0 then ?h1 + 360 else ?h1)) (real_of_int ?s) ?V
               = (?V, ?V - ?C, ?V - ?C + ?C * t')"
  proof (cases "?h1 < 0")
    case True
    then have pos: "0 < t'" using t'(5) by simp
    have "real_of_int (?h1 + 360) = 60 * (6 - t')"
      using t'(1) by simp
    then show ?thesis
      using True sector_down6 [OF pos t'(3), of "real_of_int ?s" ?V]
      by (simp add: mult.commute)
  next
    case False
    then have z: "t' = 0" using t'(5) t'(2) by simp
    then have "real_of_int ?h1 = 60 * 0" using t'(1) by simp
    then show ?thesis
      using False z sector_up0 [of 0 "real_of_int ?s" ?V]
      by (simp add: mult.commute)
  qed
  have mid: "?B = ?V - ?d + ?d * ?t" and low: "?G = ?V - ?d" using d by (simp_all add: field_simps)
  have "0 < r - g" "r - g \<le> r" "r \<le> 255" using assms by simp_all
  from roundtrip_core [where d = "r - g" and V = r and t' = t' and t = "?t" and x = s255
      and e = "1 / 10 ^ 9" and C = "?C", unfolded of_int_diff, OF this t'(2-4) sc tolerance(1,2) refl]
  have "\<bar>(?V - ?C + ?C * t') - ?B\<bar> < 5 / 2" "\<bar>(?V - ?C) - ?G\<bar> < 5 / 2"
    using mid low by simp_all
  then have "near_triple (?V, ?V - ?C, ?V - ?C + ?C * t') r g b"
    unfolding near_triple_def prod.case by simp
  then show ?thesis unfolding hsv prod.case inv .
qed

lemma roundtrip_gray:
  fixes r :: int
  assumes "0 \<le> r" "r \<le> 255"
  shows "case rgbToHsv (real_of_int r) (real_of_int r) (real_of_int r) of
           (h, s, v) \<Rightarrow> near_triple (hsvToRgb (real_of_int h) (real_of_int s) (real_of_int v)) r r r"
proof -
  have z: "js_round 0 = 0" by (simp add: js_round_def)
  have hsv: "rgbToHsv (real_of_int r) (real_of_int r) (real_of_int r) = (0, 0, r)"
    by (simp add: rgbToHsv_def Let_def double_zero z value_exact [OF assms])
  have "hsvToRgb (60 * 0) 0 (real_of_int r) = (real_of_int r, real_of_int r, real_of_int r)"
    using sector_up0 [of 0 0 "real_of_int r"] by simp
  then show ?thesis by (simp add: hsv near_triple_def)
qed

lemma near_rounds: "\<bar>x - real_of_int n\<bar> < 5 / 2 \<Longrightarrow> \<bar>js_round x - n\<bar> \<le> 2"
  unfolding js_round_def by linarith

lemma near_bytes:
  assumes "\<bar>x - real_of_int n\<bar> < 5 / 2" and "0 \<le> n" and "n \<le> 255"
  shows "\<bar>to_byte x - real_of_int n\<bar> \<le> 2"
proof -
  consider "x \<le> 0" | "255 \<le> x" | "0 < x" "x < 255" by linarith
  then show ?thesis
  proof cases
    case 1
    then have "real_of_int n < 5 / 2" using assms(1) by linarith
    then have "n \<le> 2" by linarith
    then show ?thesis using 1 assms(2) by (simp add: to_byte_def)
  next
    case 2
    then have "real_of_int n > 255 - 5 / 2" using assms(1) by linarith
    then have "253 \<le> n" by linarith
    then show ?thesis using 2 assms(3) by (simp add: to_byte_def)
  next
    case 3
    define k where "k = round_half_even x"
    have "\<bar>real_of_int k - x\<bar> \<le> 1 / 2" unfolding k_def by (rule round_half_even_near)
    then have "\<bar>real_of_int k - real_of_int n\<bar> < 3" using assms(1) by linarith
    then have "\<bar>k - n\<bar> < 3" by linarith
    then have "\<bar>k - n\<bar> \<le> 2" by simp
    then have "\<bar>real_of_int k - real_of_int n\<bar> \<le> 2" by linarith
    then show ?thesis using 3 by (simp add: to_byte_def k_def)
  qed
qed

text \<open>
  At the colour (0, 24, 1) the exact hue is 122.5 degrees; the hue computed in doubles
  lies just below it and is rounded to 122.
\<close>

lemma rgbToHsv_below_tie: "rgbToHsv 0 24 1 = (122, 255, 24)"
  by code_simp

text \<open>
  C8. For every (r, g, b) with each component a whole number from 0 to 255,
  \<^verbatim>\<open>rgbToHsv\<close> followed by the standard inverse formula reproduces each channel
  within 5/2, so that the reconstructed channels, as the 8-bit values they are (rounded
  by \<^verbatim>\<open>Math.round\<close>, or stored in a pixel array), are within 2 of the original ones.
\<close>

theorem hsv_roundtrip:
  fixes r g b :: int
  assumes "0 \<le> r" "r \<le> 255" "0 \<le> g" "g \<le> 255" "0 \<le> b" "b \<le> 255"
  shows "case rgbToHsv (real_of_int r) (real_of_int g) (real_of_int b) of
           (h, s, v) \<Rightarrow>
             (case hsvToRgb (real_of_int h) (real_of_int s) (real_of_int v) of
                (r', g', b') \<Rightarrow>
                  \<bar>r' - real_of_int r\<bar> < 5 / 2 \<and> \<bar>g' - real_of_int g\<bar> < 5 / 2
                  \<and> \<bar>b' - real_of_int b\<bar> < 5 / 2
                  \<and> \<bar>js_round r' - r\<bar> \<le> 2 \<and> \<bar>js_round g' - g\<bar> \<le> 2
                  \<and> \<bar>js_round b' - b\<bar> \<le> 2
                  \<and> \<bar>to_byte r' - real_of_int r\<bar> \<le> 2 \<and> \<bar>to_byte g' - real_of_int g\<bar> \<le> 2
                  \<and> \<bar>to_byte b' - real_of_int b\<bar> \<le> 2)"
proof -
  have near: "case rgbToHsv (real_of_int r) (real_of_int g) (real_of_int b) of
           (h, s, v) \<Rightarrow> near_triple (hsvToRgb (real_of_int h) (real_of_int s) (real_of_int v)) r g b"
  proof -
    consider "b \<le> g \<and> g \<le> r \<and> b < r" | "g < b \<and> b \<le> r" | "r \<le> b \<and> b \<le> g \<and> r < g"
      | "b < r \<and> r < g" | "g \<le> r \<and> r < b" | "r < g \<and> g < b" | "r = g \<and> g = b"
      by linarith
    then show ?thesis
    proof cases
      case 1
      then show ?thesis using assms by (intro roundtrip_sector0) simp_all
    next
      case 2
      then show ?thesis using assms by (intro roundtrip_sector5) simp_all
    next
      case 3
      then show ?thesis using assms by (intro roundtrip_sector2) simp_all
    next
      case 4
      then show ?thesis using assms by (intro roundtrip_sector1) simp_all
    next
      case 5
      then show ?thesis using assms by (intro roundtrip_sector4) simp_all
    next
      case 6
      then show ?thesis using assms by (intro roundtrip_sector3) simp_all
    next
      case 7
      then show ?thesis using roundtrip_gray [of r] assms by simp
    qed
  qed
  obtain h s v where hsv: "rgbToHsv (real_of_int r) (real_of_int g) (real_of_int b) = (h, s, v)"
    by (cases "rgbToHsv (real_of_int r) (real_of_int g) (real_of_int b)")
  obtain r' g' b' where inv: "hsvToRgb (real_of_int h) (real_of_int s) (real_of_int v) = (r', g', b')"
    by (cases "hsvToRgb (real_of_int h) (real_of_int s) (real_of_int v)")
  have n: "\<bar>r' - real_of_int r\<bar> < 5 / 2" "\<bar>g' - real_of_int g\<bar> < 5 / 2"
    "\<bar>b' - real_of_int b\<bar> < 5 / 2"
    using near unfolding hsv prod.case inv near_triple_def by simp_all
  show ?thesis
    unfolding hsv prod.case inv
    by (intro conjI n near_rounds near_bytes assms)
qed

theorem hsv_roundtrip_witness:
  "rgbToHsv 247 15 44 = (353, 240, 247)
   \<and> hsvToRgb 353 240 247 = (247, 247 / 17, 10621 / 255)
   \<and> js_round (10621 / 255) = 42 \<and> \<bar>js_round (10621 / 255) - 44\<bar> \<le> 2
   \<and> \<bar>to_byte (10621 / 255) - 44\<bar> \<le> 2
   \<and> \<bar>10621 / 255 - (44::real)\<bar> < 5 / 2"
proof -
  have hsv: "rgbToHsv 247 15 44 = (353, 240, 247)"
    by code_simp
  have inv: "hsvToRgb 353 240 247 = (247, 247 / 17, 10621 / 255)"
    by (simp add: hsvToRgb_def fmod2_def Let_def)
  have rnd: "js_round (10621 / 255) = 42" by (simp add: js_round_def)
  from hsv_roundtrip [of 247 15 44] show ?thesis
    by (simp add: hsv inv rnd)
qed

end
